theory Spec2Isabelle
  imports Complex_Main
begin

section \<open>The Kaleidoscope front end of \<open>src/kaleidoscope/parser.cpp\<close>\<close>

text \<open>
  The program is a lexer (\<open>gettok\<close>) and a recursive-descent parser over global state:
  the standard input, the lexer's static look-ahead character \<open>last_char\<close>, the
  payloads \<open>IdentStr\<close> and \<open>NumVal\<close>, and the current token \<open>CurTok\<close>. The
  embedding passes that state explicitly. A \<open>std::unique_ptr\<close> result is an
  \<open>option\<close>: \<open>nullptr\<close> is \<open>None\<close>. What \<open>log_error\<close> and
  \<open>print_curtok\<close> write to the output streams does not influence any result and is
  left out; \<open>log_error\<close> and \<open>log_error_p\<close> are the value \<open>None\<close>. The driver
  (\<open>main_loop\<close> and the \<open>handle_\<close> functions) only prints; of it the embedding keeps
  that it reads one token before it calls a parsing function.
\<close>

subsection \<open>Characters, tokens and the C library\<close>

text \<open>
  A C \<open>char\<close> is a byte, as \<^typ>\<open>char\<close> is. Where the program uses a \<open>char\<close> as a
  number (argument of \<open>isspace\<close>, comparison with \<open>EOF\<close>, return value of
  \<open>gettok\<close>) it is promoted to \<open>int\<close> with its sign, \<open>char\<close> being signed on the
  platforms the program is built for: \<open>int_of_char\<close>. Storing the \<open>int\<close> that
  \<open>getchar\<close> returns into a \<open>char\<close> keeps the low byte: \<^const>\<open>char_of\<close>.
\<close>

definition EOF :: int where "EOF = -1"

definition tok_eof :: int where "tok_eof = -1"
definition tok_def :: int where "tok_def = -2"
definition tok_extern :: int where "tok_extern = -3"
definition tok_ident :: int where "tok_ident = -4"
definition tok_num :: int where "tok_num = -5"

definition int_of_char :: "char \<Rightarrow> int" where
  "int_of_char c = (if of_char c < (128::int) then of_char c else of_char c - 256)"

text \<open>
  The character classes of \<open>ctype.h\<close> in the C locale. They hold of ASCII characters
  only; of the end-of-file value and of the negative values of a \<open>char\<close> they are
  false.
\<close>

definition isspace :: "int \<Rightarrow> bool" where
  "isspace c = (c = 32 \<or> (9 \<le> c \<and> c \<le> 13))"

definition isalpha :: "int \<Rightarrow> bool" where
  "isalpha c = ((65 \<le> c \<and> c \<le> 90) \<or> (97 \<le> c \<and> c \<le> 122))"

definition isdigit :: "int \<Rightarrow> bool" where
  "isdigit c = (48 \<le> c \<and> c \<le> 57)"

definition isalnum :: "int \<Rightarrow> bool" where
  "isalnum c = (isalpha c \<or> isdigit c)"

text \<open>
  \<open>strtod\<close> is only ever called on a string of digits and decimal points. On such a
  string it converts the longest prefix of the form digits, optional point, digits that
  holds at least one digit, and returns zero when there is none. The value is kept as
  the exact decimal; the rounding to a \<open>double\<close> is not modelled, so a closed value
  is that of the code only where the decimal is a \<open>double\<close>, as a small integer or
  \<open>1.5\<close> is.
\<close>

definition digit_char :: "char \<Rightarrow> bool" where
  "digit_char c = isdigit (int_of_char c)"

definition decimal :: "string \<Rightarrow> nat" where
  "decimal ds = foldl (\<lambda>n c. 10 * n + (of_char c - 48)) 0 ds"

definition strtod :: "string \<Rightarrow> rat" where
  "strtod str =
     (let ip = takeWhile digit_char str;
          r = dropWhile digit_char str;
          fp = (case r of [] \<Rightarrow> [] | c # t \<Rightarrow> if c = CHR ''.'' then takeWhile digit_char t else [])
      in if ip = [] \<and> fp = [] then 0
         else of_nat (decimal ip) + of_nat (decimal fp) / 10 ^ length fp)"

subsection \<open>The syntax tree\<close>

text \<open>
  \<open>FuncPrototype\<close> keeps its parameters as expressions
  (\<open>std::vector<std::unique_ptr<Expr>> args\<close>), and a \<open>FunctionExpr\<close> is itself an
  \<open>Expr\<close>.
\<close>

datatype expr =
    NumExpr rat
  | VarExpr string
  | BinaryExpr char expr expr
  | CallExpr string "expr list"
  | FunctionExpr func_prototype expr
and func_prototype = FuncPrototype string "expr list"

subsection \<open>The state\<close>

record state =
  input :: string
  last_char :: char
  IdentStr :: string
  NumVal :: rat
  CurTok :: int

text \<open>
  At program start nothing has been read, \<open>last_char\<close> is a blank and the other
  statics are zero-initialised.
\<close>

definition init_state :: "string \<Rightarrow> state" where
  "init_state inp = \<lparr>input = inp, last_char = CHR '' '', IdentStr = [], NumVal = 0, CurTok = 0\<rparr>"

definition getchar :: "string \<Rightarrow> int \<times> string" where
  "getchar inp = (case inp of [] \<Rightarrow> (EOF, []) | c # cs \<Rightarrow> (of_char c, cs))"

text \<open>The statement \<open>last_char = getchar()\<close>.\<close>

definition read_char :: "state \<Rightarrow> state" where
  "read_char s = (let (c, rest) = getchar (input s) in s\<lparr>input := rest, last_char := char_of c\<rparr>)"

text \<open>
  The characters not yet consumed: the rest of the input and the look-ahead, unless the
  look-ahead is the end-of-file value.
\<close>

definition pending :: "state \<Rightarrow> nat" where
  "pending s = length (input s) + (if int_of_char (last_char s) = EOF then 0 else 1)"

lemma int_of_char_EOF [simp]: "int_of_char (char_of EOF) = EOF"
  by (simp add: int_of_char_def EOF_def char_of_def)

lemma pending_read_char: "int_of_char (last_char s) \<noteq> EOF \<Longrightarrow> pending (read_char s) < pending s"
  by (auto simp: pending_def read_char_def getchar_def split: list.splits)

lemma pending_read_char_le: "pending (read_char s) \<le> pending s"
  by (auto simp: pending_def read_char_def getchar_def split: list.splits)

subsection \<open>The lexer\<close>

text \<open>\<open>while (isspace(last_char)) last_char = getchar();\<close>\<close>

function skip_space :: "state \<Rightarrow> state" where
  "skip_space s = (if isspace (int_of_char (last_char s)) then skip_space (read_char s) else s)"
  by pat_completeness auto
termination
proof (relation "measure pending", goal_cases)
  case 1
  show ?case by simp
next
  case (2 s)
  then have "int_of_char (last_char s) \<noteq> EOF" by (auto simp: isspace_def EOF_def)
  then show ?case by (simp add: pending_read_char)
qed

text \<open>\<open>while (isalnum(last_char = getchar())) IdentStr += last_char;\<close>\<close>

function read_ident :: "state \<Rightarrow> state" where
  "read_ident s =
     (let s1 = read_char s in
      if isalnum (int_of_char (last_char s1))
      then read_ident (s1\<lparr>IdentStr := IdentStr s1 @ [last_char s1]\<rparr>)
      else s1)"
  by pat_completeness auto
termination
proof (relation "measure (\<lambda>s. length (input s))", goal_cases)
  case 1
  show ?case by simp
next
  case (2 s s1)
  then show ?case
    by (auto simp: read_char_def getchar_def isalnum_def isalpha_def isdigit_def
        int_of_char_def char_of_def EOF_def split: list.splits)
qed

text \<open>
  \<open>while (isdigit(last_char) || last_char == '.') { numstr += last_char; last_char = getchar(); }\<close>
  with the local \<open>numstr\<close> as an accumulator.
\<close>

function read_number :: "string \<Rightarrow> state \<Rightarrow> string \<times> state" where
  "read_number numstr s =
     (if isdigit (int_of_char (last_char s)) \<or> last_char s = CHR ''.''
      then read_number (numstr @ [last_char s]) (read_char s)
      else (numstr, s))"
  by pat_completeness auto
termination
proof (relation "measure (\<lambda>(n, s). pending s)", goal_cases)
  case 1
  show ?case by simp
next
  case (2 numstr s)
  then have "int_of_char (last_char s) \<noteq> EOF"
    by (auto simp: isdigit_def EOF_def int_of_char_def)
  then show ?case by (simp add: pending_read_char)
qed

declare skip_space.simps [simp del] read_ident.simps [simp del] read_number.simps [simp del]

definition gettok :: "state \<Rightarrow> int \<times> state" where
  "gettok s0 =
     (let s = skip_space s0 in
      if isalpha (int_of_char (last_char s)) then
        (let s1 = read_ident (s\<lparr>IdentStr := [last_char s]\<rparr>) in
         if IdentStr s1 = ''def'' then (tok_def, s1)
         else if IdentStr s1 = ''extern'' then (tok_extern, s1)
         else (tok_ident, s1))
      else if isdigit (int_of_char (last_char s)) \<or> last_char s = CHR ''.'' then
        (let (numstr, s1) = read_number [last_char s] (read_char s)
         in (tok_num, s1\<lparr>NumVal := strtod numstr\<rparr>))
      else if int_of_char (last_char s) = EOF then (tok_eof, s)
      else (int_of_char (last_char s), read_char s))"

definition is_op :: "char \<Rightarrow> bool" where
  "is_op op = (if op = CHR ''+'' \<or> op = CHR ''-'' \<or> op = CHR ''*'' then True else False)"

subsection \<open>The parser\<close>

text \<open>\<open>get_next_token\<close> also returns the new \<open>CurTok\<close>; no caller uses the value.\<close>

definition get_next_token :: "state \<Rightarrow> state" where
  "get_next_token s = (let (t, s1) = gettok s in s1\<lparr>CurTok := t\<rparr>)"

definition parse_number :: "state \<Rightarrow> expr option \<times> state" where
  "parse_number s = (let result = NumExpr (NumVal s) in (Some result, get_next_token s))"

text \<open>
  \<open>parse_ident_loop\<close> is the \<open>while (true)\<close> of \<open>parse_ident\<close>: \<open>None\<close> when the
  loop leaves the function with \<open>log_error\<close>, the arguments when it ends with
  \<open>break\<close>. \<open>parse_binop_rhs\<close> is a loop too, with \<open>cur\<close> as its variable. The int
  \<open>op\<close> becomes a \<open>char\<close> where it is passed to \<open>is_op\<close> and to the constructor of
  \<open>BinaryExpr\<close>.
\<close>

function parse_ident :: "state \<Rightarrow> expr option \<times> state"
  and parse_ident_loop :: "expr list \<Rightarrow> state \<Rightarrow> expr list option \<times> state"
  and parse_primary :: "state \<Rightarrow> expr option \<times> state"
  and parse_binop_rhs :: "expr \<Rightarrow> state \<Rightarrow> expr option \<times> state"
  and parse_expr :: "state \<Rightarrow> expr option \<times> state"
where
  "parse_ident s =
     (let name = IdentStr s; s1 = get_next_token s in
      if CurTok s1 \<noteq> of_char CHR ''('' then (Some (VarExpr name), s1)
      else let s2 = get_next_token s1 in
        if CurTok s2 \<noteq> of_char CHR '')'' then
          (case parse_ident_loop [] s2 of
             (None, s3) \<Rightarrow> (None, s3)
           | (Some args, s3) \<Rightarrow> (Some (CallExpr name args), get_next_token s3))
        else (Some (CallExpr name []), s2))"
| "parse_ident_loop args s =
     (case parse_expr s of
        (None, s1) \<Rightarrow> (None, s1)
      | (Some arg, s1) \<Rightarrow>
          if CurTok s1 = of_char CHR '')'' then (Some (args @ [arg]), s1)
          else if CurTok s1 \<noteq> of_char CHR '','' then (None, s1)
          else parse_ident_loop (args @ [arg]) (get_next_token s1))"
| "parse_primary s =
     (if CurTok s = tok_ident then parse_ident s
      else if CurTok s = tok_num then parse_number s
      else (None, s))"
| "parse_binop_rhs cur s =
     (let op = CurTok s in
      if \<not> is_op (char_of op) then (Some cur, s)
      else case parse_primary (get_next_token s) of
          (None, s1) \<Rightarrow> (None, s1)
        | (Some rhs, s1) \<Rightarrow> parse_binop_rhs (BinaryExpr (char_of op) cur rhs) s1)"
| "parse_expr s =
     (case parse_primary s of
        (None, s1) \<Rightarrow> (None, s1)
      | (Some lhs, s1) \<Rightarrow> parse_binop_rhs lhs s1)"
  by pat_completeness auto

subsection \<open>Every parsing function returns\<close>

text \<open>
  The parsing functions call each other on the state that an earlier call returned, so
  their termination rests on a fact about their results: no call gives back more
  unconsumed input than it was given. \<open>remaining\<close> counts the pending characters
  and the current token, unless that token is the end of the input.
\<close>

definition remaining :: "state \<Rightarrow> nat" where
  "remaining s = pending s + (if CurTok s = tok_eof then 0 else 1)"

lemma pending_skip_space: "pending (skip_space s) \<le> pending s"
proof (induction s rule: skip_space.induct)
  case (1 s)
  show ?case
  proof (cases "isspace (int_of_char (last_char s))")
    case True
    with 1 have "pending (skip_space (read_char s)) \<le> pending (read_char s)" by simp
    also have "\<dots> \<le> pending s" by (rule pending_read_char_le)
    finally show ?thesis using True by (subst skip_space.simps) simp
  next
    case False
    then show ?thesis by (subst skip_space.simps) simp
  qed
qed

lemma pending_IdentStr_update [simp]: "pending (s\<lparr>IdentStr := x\<rparr>) = pending s"
  by (simp add: pending_def)

lemma pending_NumVal_update [simp]: "pending (s\<lparr>NumVal := x\<rparr>) = pending s"
  by (simp add: pending_def)

lemma pending_CurTok_update [simp]: "pending (s\<lparr>CurTok := x\<rparr>) = pending s"
  by (simp add: pending_def)

lemma pending_read_ident: "pending (read_ident s) \<le> pending (read_char s)"
proof (induction s rule: read_ident.induct)
  case (1 s)
  let ?s1 = "read_char s"
  show ?case
  proof (cases "isalnum (int_of_char (last_char ?s1))")
    case True
    let ?s2 = "?s1\<lparr>IdentStr := IdentStr ?s1 @ [last_char ?s1]\<rparr>"
    have "pending (read_ident ?s2) \<le> pending (read_char ?s2)"
      using 1 True by simp
    also have "\<dots> \<le> pending ?s2" by (rule pending_read_char_le)
    finally show ?thesis using True by (subst read_ident.simps) (simp add: Let_def)
  next
    case False
    then show ?thesis by (subst read_ident.simps) (simp add: Let_def)
  qed
qed

lemma pending_read_number: "pending (snd (read_number n s)) \<le> pending s"
proof (induction n s rule: read_number.induct)
  case (1 n s)
  show ?case
  proof (cases "isdigit (int_of_char (last_char s)) \<or> last_char s = CHR ''.''")
    case True
    with 1 have "pending (snd (read_number (n @ [last_char s]) (read_char s))) \<le> pending (read_char s)"
      by simp
    also have "\<dots> \<le> pending s" by (rule pending_read_char_le)
    finally show ?thesis using True by (subst read_number.simps) simp
  next
    case False
    then show ?thesis by (subst read_number.simps) simp
  qed
qed

lemma isalpha_not_EOF: "isalpha c \<Longrightarrow> c \<noteq> EOF"
  by (auto simp: isalpha_def EOF_def)

lemma isdigit_not_EOF: "isdigit c \<Longrightarrow> c \<noteq> EOF"
  by (auto simp: isdigit_def EOF_def)

lemma dot_not_EOF: "int_of_char CHR ''.'' \<noteq> EOF"
  by (simp add: int_of_char_def EOF_def)

lemma pending_gettok: "pending (snd (gettok s)) \<le> pending s"
proof -
  let ?s = "skip_space s"
  have a: "pending ?s \<le> pending s" by (rule pending_skip_space)
  have b: "pending (read_ident (?s\<lparr>IdentStr := [last_char ?s]\<rparr>)) \<le> pending ?s"
    using pending_read_ident [of "?s\<lparr>IdentStr := [last_char ?s]\<rparr>"]
          pending_read_char_le [of "?s\<lparr>IdentStr := [last_char ?s]\<rparr>"] by simp
  have c: "pending (snd (read_number [last_char ?s] (read_char ?s))) \<le> pending ?s"
    using pending_read_number [of "[last_char ?s]" "read_char ?s"] pending_read_char_le [of ?s]
    by simp
  have d: "pending (read_char ?s) \<le> pending ?s" by (rule pending_read_char_le)
  show ?thesis
    using a b c d by (auto simp: gettok_def Let_def split: prod.splits)
qed

lemma pending_gettok_less:
  assumes "fst (gettok s) \<noteq> tok_eof"
  shows "pending (snd (gettok s)) < pending s"
proof -
  let ?s = "skip_space s"
  let ?c = "int_of_char (last_char ?s)"
  have a: "pending ?s \<le> pending s" by (rule pending_skip_space)
  have ne: "?c \<noteq> EOF"
  proof
    assume e: "?c = EOF"
    then have "\<not> isalpha ?c" "\<not> isdigit ?c" "last_char ?s \<noteq> CHR ''.''"
      using isalpha_not_EOF isdigit_not_EOF dot_not_EOF by auto
    with e have "gettok s = (tok_eof, ?s)" by (simp add: gettok_def Let_def)
    with assms show False by simp
  qed
  have d: "pending (read_char ?s) < pending ?s" using ne by (rule pending_read_char)
  have b: "pending (read_ident (?s\<lparr>IdentStr := [last_char ?s]\<rparr>)) < pending ?s"
  proof -
    have "pending (read_ident (?s\<lparr>IdentStr := [last_char ?s]\<rparr>))
         \<le> pending (read_char (?s\<lparr>IdentStr := [last_char ?s]\<rparr>))"
      by (rule pending_read_ident)
    also have "\<dots> < pending (?s\<lparr>IdentStr := [last_char ?s]\<rparr>)"
      using ne by (intro pending_read_char) simp
    finally show ?thesis by simp
  qed
  have c: "pending (snd (read_number [last_char ?s] (read_char ?s))) < pending ?s"
    using pending_read_number [of "[last_char ?s]" "read_char ?s"] d by simp
  show ?thesis
    using a b c d ne by (auto simp: gettok_def Let_def split: prod.splits)
qed

lemma remaining_get_next_token_le: "remaining (get_next_token s) \<le> remaining s"
  using pending_gettok [of s] pending_gettok_less [of s]
  by (auto simp: remaining_def get_next_token_def split: prod.splits)

lemma remaining_get_next_token_less:
  "CurTok s \<noteq> tok_eof \<Longrightarrow> remaining (get_next_token s) < remaining s"
  using pending_gettok [of s] pending_gettok_less [of s]
  by (auto simp: remaining_def get_next_token_def split: prod.splits)


abbreviation parse_dom :: "(state + expr list \<times> state) + state + expr \<times> state + state \<Rightarrow> bool" where
  "parse_dom \<equiv> parse_ident_parse_ident_loop_parse_primary_parse_binop_rhs_parse_expr_dom"

lemma remaining_parse_number: "remaining (snd (parse_number s)) \<le> remaining s"
  by (simp add: parse_number_def remaining_get_next_token_le)

lemma remaining_get_next_token_twice: "remaining (get_next_token (get_next_token s)) \<le> remaining s"
  by (meson order_trans remaining_get_next_token_le)

lemma remaining_parse_dom:
  "parse_dom (Inl (Inl s)) \<Longrightarrow> remaining (snd (parse_ident s)) \<le> remaining s"
  "parse_dom (Inl (Inr (args, s))) \<Longrightarrow> remaining (snd (parse_ident_loop args s)) \<le> remaining s"
  "parse_dom (Inr (Inl s)) \<Longrightarrow> remaining (snd (parse_primary s)) \<le> remaining s"
  "parse_dom (Inr (Inr (Inl (cur, s)))) \<Longrightarrow> remaining (snd (parse_binop_rhs cur s)) \<le> remaining s"
  "parse_dom (Inr (Inr (Inr s))) \<Longrightarrow> remaining (snd (parse_expr s)) \<le> remaining s"
proof (induct rule: parse_ident_parse_ident_loop_parse_primary_parse_binop_rhs_parse_expr.pinduct)
  case (1 s)
  let ?s1 = "get_next_token s"
  let ?s2 = "get_next_token ?s1"
  show ?case
  proof (cases "CurTok ?s1 = of_char CHR ''('' \<and> CurTok ?s2 \<noteq> of_char CHR '')''")
    case True
    then have ih: "remaining (snd (parse_ident_loop [] ?s2)) \<le> remaining ?s2"
      using "1.hyps"(2) by simp
    obtain r s3 where r: "parse_ident_loop [] ?s2 = (r, s3)" by (cases "parse_ident_loop [] ?s2")
    with ih have "remaining s3 \<le> remaining s" using remaining_get_next_token_twice [of s] by simp
    moreover have "remaining (get_next_token s3) \<le> remaining s3"
      by (rule remaining_get_next_token_le)
    ultimately show ?thesis using True r
      by (cases r) (simp_all add: parse_ident.psimps [OF "1.hyps"(1)] Let_def)
  next
    case False
    then show ?thesis
      using remaining_get_next_token_le [of s] remaining_get_next_token_twice [of s]
      by (auto simp: parse_ident.psimps [OF "1.hyps"(1)] Let_def)
  qed
next
  case (2 args s)
  obtain r s1 where r: "parse_expr s = (r, s1)" by (cases "parse_expr s")
  with "2.hyps"(2) have le: "remaining s1 \<le> remaining s" by simp
  show ?case
  proof (cases r)
    case None
    with r le show ?thesis by (simp add: parse_ident_loop.psimps [OF "2.hyps"(1)])
  next
    case (Some arg)
    show ?thesis
    proof (cases "CurTok s1 \<noteq> of_char CHR '')'' \<and> CurTok s1 = of_char CHR '',''")
      case True
      then have "remaining (snd (parse_ident_loop (args @ [arg]) (get_next_token s1)))
                 \<le> remaining (get_next_token s1)"
        using "2.hyps"(3) [of r s1 arg] r Some by simp
      also have "\<dots> \<le> remaining s1" by (rule remaining_get_next_token_le)
      finally show ?thesis using r Some True le
        by (simp add: parse_ident_loop.psimps [OF "2.hyps"(1)])
    next
      case False
      then show ?thesis using r Some le
        by (auto simp: parse_ident_loop.psimps [OF "2.hyps"(1)])
    qed
  qed
next
  case (3 s)
  then show ?case
    by (auto simp: parse_primary.psimps remaining_parse_number)
next
  case (4 cur s)
  show ?case
  proof (cases "is_op (char_of (CurTok s))")
    case False
    then show ?thesis by (simp add: parse_binop_rhs.psimps [OF "4.hyps"(1)])
  next
    case True
    obtain r s1 where r: "parse_primary (get_next_token s) = (r, s1)"
      by (cases "parse_primary (get_next_token s)")
    have "remaining s1 \<le> remaining (get_next_token s)"
      using "4.hyps"(2) [of "CurTok s"] True r by simp
    also have "\<dots> \<le> remaining s" by (rule remaining_get_next_token_le)
    finally have le: "remaining s1 \<le> remaining s" .
    show ?thesis
    proof (cases r)
      case None
      with r le True show ?thesis by (simp add: parse_binop_rhs.psimps [OF "4.hyps"(1)])
    next
      case (Some rhs)
      have "remaining (snd (parse_binop_rhs (BinaryExpr (char_of (CurTok s)) cur rhs) s1)) \<le> remaining s1"
        using "4.hyps"(3) [of "CurTok s" r s1 rhs] True r Some by simp
      with le r Some True show ?thesis by (simp add: parse_binop_rhs.psimps [OF "4.hyps"(1)])
    qed
  qed
next
  case (5 s)
  obtain r s1 where r: "parse_primary s = (r, s1)" by (cases "parse_primary s")
  with "5.hyps"(2) have le: "remaining s1 \<le> remaining s" by simp
  show ?case
  proof (cases r)
    case None
    with r le show ?thesis by (simp add: parse_expr.psimps [OF "5.hyps"(1)])
  next
    case (Some lhs)
    have "remaining (snd (parse_binop_rhs lhs s1)) \<le> remaining s1"
      using "5.hyps"(3) [of r s1 lhs] r Some by simp
    with le r Some show ?thesis by (simp add: parse_expr.psimps [OF "5.hyps"(1)])
  qed
qed

lemma is_op_not_eof: "is_op (char_of t) \<Longrightarrow> t \<noteq> tok_eof"
  by (auto simp: is_op_def tok_eof_def char_of_def)

lemma parse_total: "All parse_dom"
proof (relation "measures [\<lambda>x. case x of Inl (Inl s) \<Rightarrow> remaining s | Inl (Inr (a, s)) \<Rightarrow> remaining s
          | Inr (Inl s) \<Rightarrow> remaining s | Inr (Inr (Inl (c, s))) \<Rightarrow> remaining s | Inr (Inr (Inr s)) \<Rightarrow> remaining s,
       \<lambda>x. case x of Inl (Inl s) \<Rightarrow> 1 | Inl (Inr (a, s)) \<Rightarrow> 4
          | Inr (Inl s) \<Rightarrow> 2 | Inr (Inr (Inl (c, s))) \<Rightarrow> 0 | Inr (Inr (Inr s)) \<Rightarrow> 3]", goal_cases)
  case 1
  show ?case by simp
next
  case (2 s x xa xb)
  then have "CurTok (get_next_token s) \<noteq> tok_eof" by (simp add: tok_eof_def)
  then have "remaining (get_next_token (get_next_token s)) < remaining (get_next_token s)"
    by (rule remaining_get_next_token_less)
  also have "\<dots> \<le> remaining s" by (rule remaining_get_next_token_le)
  finally show ?case using 2 by simp
next
  case (3 args s)
  show ?case by simp
next
  case (4 args s x y x2)
  then have "CurTok y \<noteq> tok_eof" by (simp add: tok_eof_def)
  then have "remaining (get_next_token y) < remaining y"
    by (rule remaining_get_next_token_less)
  also have "remaining y \<le> remaining s"
    using remaining_parse_dom(5) [OF 4(5)] 4(1) by (metis snd_conv)
  finally show ?case by simp
next
  case (5 s)
  show ?case by simp
next
  case (6 cur s x)
  then have "CurTok s \<noteq> tok_eof" using is_op_not_eof by blast
  then show ?case using remaining_get_next_token_less by simp
next
  case (7 cur s x xa y x2)
  then have "CurTok s \<noteq> tok_eof" using is_op_not_eof by blast
  then have "remaining (get_next_token s) < remaining s"
    by (rule remaining_get_next_token_less)
  moreover have "remaining y \<le> remaining (get_next_token s)"
    using remaining_parse_dom(3) [OF 7(5)] 7(3) by (metis snd_conv)
  ultimately show ?case by simp
next
  case (8 s)
  show ?case by simp
next
  case (9 s x y x2)
  have "remaining y \<le> remaining s"
    using remaining_parse_dom(3) [OF 9(3)] 9(1) by (metis snd_conv)
  then show ?case by auto
qed

termination parse_ident
  by (rule parse_total)

declare parse_ident.simps [simp del] parse_ident_loop.simps [simp del] parse_primary.simps [simp del]
  parse_binop_rhs.simps [simp del] parse_expr.simps [simp del]

lemma remaining_parse_ident: "remaining (snd (parse_ident s)) \<le> remaining s"
  using parse_total by (intro remaining_parse_dom(1)) simp

lemma remaining_parse_primary: "remaining (snd (parse_primary s)) \<le> remaining s"
  using parse_total by (intro remaining_parse_dom(3)) simp

lemma remaining_parse_binop_rhs: "remaining (snd (parse_binop_rhs cur s)) \<le> remaining s"
  using parse_total by (intro remaining_parse_dom(4)) simp

lemma remaining_parse_expr: "remaining (snd (parse_expr s)) \<le> remaining s"
  using parse_total by (intro remaining_parse_dom(5)) simp

subsection \<open>Prototypes, definitions and the other top-level forms\<close>

text \<open>
  \<open>parse_prototype_loop\<close> is the \<open>while (true)\<close> of \<open>parse_prototype\<close>, which
  reads every parameter with \<open>parse_ident\<close>.
\<close>

function parse_prototype_loop :: "expr list \<Rightarrow> state \<Rightarrow> expr list option \<times> state" where
  "parse_prototype_loop argnames s =
     (case parse_ident s of
        (None, s1) \<Rightarrow> (None, s1)
      | (Some aname, s1) \<Rightarrow>
          if CurTok s1 = of_char CHR '')'' then (Some (argnames @ [aname]), s1)
          else if CurTok s1 \<noteq> of_char CHR '','' then (None, s1)
          else parse_prototype_loop (argnames @ [aname]) (get_next_token s1))"
  by pat_completeness auto
termination
proof (relation "measure (\<lambda>(a, s). remaining s)", goal_cases)
  case 1
  show ?case by simp
next
  case (2 argnames s x y x2)
  then have "CurTok y \<noteq> tok_eof" by (simp add: tok_eof_def)
  then have "remaining (get_next_token y) < remaining y"
    by (rule remaining_get_next_token_less)
  also have "remaining y \<le> remaining s"
    using remaining_parse_ident [of s] 2(1) by (metis snd_conv)
  finally show ?case by simp
qed

definition parse_prototype :: "state \<Rightarrow> func_prototype option \<times> state" where
  "parse_prototype s =
     (if CurTok s \<noteq> tok_ident then (None, s)
      else let name = IdentStr s; s1 = get_next_token s in
        if CurTok s1 \<noteq> of_char CHR ''('' then (None, s1)
        else let s2 = get_next_token s1 in
          if CurTok s2 \<noteq> of_char CHR '')'' then
            (case parse_prototype_loop [] s2 of
               (None, s3) \<Rightarrow> (None, s3)
             | (Some argnames, s3) \<Rightarrow> (Some (FuncPrototype name argnames), get_next_token s3))
          else (Some (FuncPrototype name []), s2))"

definition parse_definition :: "state \<Rightarrow> expr option \<times> state" where
  "parse_definition s =
     (case parse_prototype (get_next_token s) of
        (None, s1) \<Rightarrow> (None, s1)
      | (Some proto, s1) \<Rightarrow>
          (case parse_expr s1 of
             (None, s2) \<Rightarrow> (None, s2)
           | (Some body, s2) \<Rightarrow> (Some (FunctionExpr proto body), s2)))"

definition parse_toplevel_expr :: "state \<Rightarrow> expr option \<times> state" where
  "parse_toplevel_expr s =
     (case parse_expr s of
        (Some e, s1) \<Rightarrow> (Some (FunctionExpr (FuncPrototype ''__anon_expr'' []) e), s1)
      | (None, s1) \<Rightarrow> (None, s1))"

definition parse_extern :: "state \<Rightarrow> func_prototype option \<times> state" where
  "parse_extern s = parse_prototype (get_next_token s)"

declare parse_prototype_loop.simps [simp del]

section \<open>Properties of the parser\<close>

subsection \<open>What a tree can look like\<close>

text \<open>
  A primary is what \<open>parse_primary\<close> can return: a number, a variable or a call. A tree
  is left-associative and precedence-flat when every right operand along its left spine
  is a primary and every operator on the spine is one that \<open>is_op\<close> accepts: the shape
  \<open>((a op b) op c) op d\<close>. \<open>binops\<close> collects the operators of all binary nodes of a
  tree, also those inside call arguments.
\<close>

fun primary_shaped :: "expr \<Rightarrow> bool" where
  "primary_shaped (NumExpr v) = True"
| "primary_shaped (VarExpr n) = True"
| "primary_shaped (CallExpr c args) = True"
| "primary_shaped (BinaryExpr op l r) = False"
| "primary_shaped (FunctionExpr p b) = False"

fun left_assoc :: "expr \<Rightarrow> bool" where
  "left_assoc (BinaryExpr op l r) = (is_op op \<and> left_assoc l \<and> primary_shaped r)"
| "left_assoc (NumExpr v) = True"
| "left_assoc (VarExpr n) = True"
| "left_assoc (CallExpr c args) = True"
| "left_assoc (FunctionExpr p b) = False"

fun binops :: "expr \<Rightarrow> char set" and binops_proto :: "func_prototype \<Rightarrow> char set" where
  "binops (NumExpr v) = {}"
| "binops (VarExpr n) = {}"
| "binops (BinaryExpr op l r) = insert op (binops l \<union> binops r)"
| "binops (CallExpr c args) = (\<Union>a \<in> set args. binops a)"
| "binops (FunctionExpr p b) = binops_proto p \<union> binops b"
| "binops_proto (FuncPrototype n args) = (\<Union>a \<in> set args. binops a)"

definition ops_ok :: "expr \<Rightarrow> bool" where
  "ops_ok e = (\<forall>c \<in> binops e. is_op c)"

lemma ops_ok_simps [simp]:
  "ops_ok (NumExpr v)" "ops_ok (VarExpr n)"
  "ops_ok (BinaryExpr op l r) = (is_op op \<and> ops_ok l \<and> ops_ok r)"
  "ops_ok (CallExpr c args) = (\<forall>a \<in> set args. ops_ok a)"
  by (auto simp: ops_ok_def)

subsection \<open>Shapes of the results\<close>

lemma parse_ident_shape: "parse_ident s = (Some e, s') \<Longrightarrow> primary_shaped e"
  by (subst (asm) parse_ident.simps) (auto simp: Let_def split: if_splits prod.splits option.splits)

lemma parse_primary_shape: "parse_primary s = (Some e, s') \<Longrightarrow> primary_shaped e"
  by (subst (asm) parse_primary.simps)
     (auto simp: parse_number_def parse_ident_shape split: if_splits)

lemma primary_shaped_left_assoc: "primary_shaped e \<Longrightarrow> left_assoc e"
  by (cases e) auto

lemma parse_binop_rhs_left_assoc:
  "left_assoc cur \<Longrightarrow> parse_binop_rhs cur s = (Some e, s') \<Longrightarrow> left_assoc e"
proof (induction "remaining s" arbitrary: cur s rule: less_induct)
  case less
  show ?case
  proof (cases "is_op (char_of (CurTok s))")
    case False
    with less.prems show ?thesis by (simp add: parse_binop_rhs.simps [of cur s])
  next
    case True
    obtain r s1 where r: "parse_primary (get_next_token s) = (r, s1)"
      by (cases "parse_primary (get_next_token s)")
    with True less.prems(2) obtain rhs where rhs: "r = Some rhs"
      and rec: "parse_binop_rhs (BinaryExpr (char_of (CurTok s)) cur rhs) s1 = (Some e, s')"
      by (cases r) (auto simp: parse_binop_rhs.simps [of cur s])
    have "remaining s1 \<le> remaining (get_next_token s)"
      using remaining_parse_primary [of "get_next_token s"] r by simp
    also have "\<dots> < remaining s"
      using True by (intro remaining_get_next_token_less is_op_not_eof)
    finally have lt: "remaining s1 < remaining s" .
    have "left_assoc (BinaryExpr (char_of (CurTok s)) cur rhs)"
      using True less.prems(1) parse_primary_shape r rhs by simp
    from less.hyps [OF lt this rec] show ?thesis .
  qed
qed

lemma parse_expr_left_assoc: "parse_expr s = (Some e, s') \<Longrightarrow> left_assoc e"
  by (subst (asm) parse_expr.simps)
     (auto split: prod.splits option.splits
           intro: parse_binop_rhs_left_assoc primary_shaped_left_assoc parse_primary_shape)

lemma binops_parse:
  "parse_ident s = (Some e, s') \<Longrightarrow> ops_ok e"
  "parse_ident_loop args s = (Some l, s') \<Longrightarrow> \<forall>a \<in> set args. ops_ok a \<Longrightarrow> \<forall>a \<in> set l. ops_ok a"
  "parse_primary s = (Some e, s') \<Longrightarrow> ops_ok e"
  "parse_binop_rhs cur s = (Some e, s') \<Longrightarrow> ops_ok cur \<Longrightarrow> ops_ok e"
  "parse_expr s = (Some e, s') \<Longrightarrow> ops_ok e"
proof (induct s and args s and s and cur s and s arbitrary: e s' and l s' and e s' and e s' and e s'
       rule: parse_ident_parse_ident_loop_parse_primary_parse_binop_rhs_parse_expr.induct)
  case (1 s)
  let ?s1 = "get_next_token s"
  let ?s2 = "get_next_token ?s1"
  show ?case
  proof (cases "CurTok ?s1 = of_char CHR ''('' \<and> CurTok ?s2 \<noteq> of_char CHR '')''")
    case True
    obtain r s3 where r: "parse_ident_loop [] ?s2 = (r, s3)" by (cases "parse_ident_loop [] ?s2")
    with True "1.prems" obtain l where l: "r = Some l" and e: "e = CallExpr (IdentStr s) l"
      by (cases r) (auto simp: parse_ident.simps [of s] Let_def)
    have "\<forall>a \<in> set l. ops_ok a"
      using "1.hyps" [OF refl refl _ refl, of l s3] True r l by simp
    with e show ?thesis by simp
  next
    case False
    with "1.prems" show ?thesis
      by (auto simp: parse_ident.simps [of s] Let_def split: if_splits)
  qed
next
  case (2 args s)
  obtain r s1 where r: "parse_expr s = (r, s1)" by (cases "parse_expr s")
  with "2.prems"(1) obtain arg where arg: "r = Some arg"
    by (cases r) (auto simp: parse_ident_loop.simps [of args s])
  have ok: "ops_ok arg" using "2.hyps"(1) [of arg s1] r arg by simp
  show ?case
  proof (cases "CurTok s1 = of_char CHR '')''")
    case True
    with "2.prems" r arg ok show ?thesis
      by (auto simp: parse_ident_loop.simps [of args s])
  next
    case False
    with "2.prems"(1) r arg have c: "CurTok s1 = of_char CHR '',''"
      and rec: "parse_ident_loop (args @ [arg]) (get_next_token s1) = (Some l, s')"
      by (auto simp: parse_ident_loop.simps [of args s] split: if_splits)
    have "\<forall>a \<in> set (args @ [arg]). ops_ok a" using "2.prems"(2) ok by simp
    with "2.hyps"(2) [OF r [symmetric] arg _ _ rec] False c show ?thesis by simp
  qed
next
  case (3 s)
  show ?case
  proof (cases "CurTok s = tok_ident")
    case True
    with "3.prems" have "parse_ident s = (Some e, s')" by (simp add: parse_primary.simps [of s])
    with "3.hyps" True show ?thesis by simp
  next
    case False
    with "3.prems" show ?thesis
      by (auto simp: parse_primary.simps [of s] parse_number_def split: if_splits)
  qed
next
  case (4 cur s)
  show ?case
  proof (cases "is_op (char_of (CurTok s))")
    case False
    with "4.prems" show ?thesis by (simp add: parse_binop_rhs.simps [of cur s])
  next
    case True
    obtain r s1 where r: "parse_primary (get_next_token s) = (r, s1)"
      by (cases "parse_primary (get_next_token s)")
    with True "4.prems"(1) obtain rhs where rhs: "r = Some rhs"
      and rec: "parse_binop_rhs (BinaryExpr (char_of (CurTok s)) cur rhs) s1 = (Some e, s')"
      by (cases r) (auto simp: parse_binop_rhs.simps [of cur s])
    have "ops_ok rhs" using "4.hyps"(1) [OF refl _ , of rhs s1] True r rhs by simp
    then have "ops_ok (BinaryExpr (char_of (CurTok s)) cur rhs)"
      using True "4.prems"(2) by simp
    with "4.hyps"(2) [OF refl _ r [symmetric] rhs rec] True show ?thesis by simp
  qed
next
  case (5 s)
  obtain r s1 where r: "parse_primary s = (r, s1)" by (cases "parse_primary s")
  with "5.prems" obtain lhs where lhs: "r = Some lhs" and rec: "parse_binop_rhs lhs s1 = (Some e, s')"
    by (cases r) (auto simp: parse_expr.simps [of s])
  have "ops_ok lhs" using "5.hyps"(1) [of lhs s1] r lhs by simp
  with "5.hyps"(2) [OF r [symmetric] lhs rec] show ?case .
qed

subsection \<open>The operator loop\<close>

lemma remaining_parse_binop_rhs_less:
  assumes "is_op (char_of (CurTok s))"
  shows "remaining (snd (parse_binop_rhs cur s)) < remaining s"
proof -
  obtain r s1 where r: "parse_primary (get_next_token s) = (r, s1)"
    by (cases "parse_primary (get_next_token s)")
  have "remaining s1 \<le> remaining (get_next_token s)"
    using remaining_parse_primary [of "get_next_token s"] r by simp
  also have "\<dots> < remaining s"
    using assms by (intro remaining_get_next_token_less is_op_not_eof)
  finally have lt: "remaining s1 < remaining s" .
  show ?thesis
  proof (cases r)
    case None
    with assms r lt show ?thesis by (simp add: parse_binop_rhs.simps [of cur s])
  next
    case (Some rhs)
    have "remaining (snd (parse_binop_rhs (BinaryExpr (char_of (CurTok s)) cur rhs) s1)) \<le> remaining s1"
      by (rule remaining_parse_binop_rhs)
    with assms r Some lt show ?thesis by (simp add: parse_binop_rhs.simps [of cur s])
  qed
qed

lemma parse_binop_rhs_result:
  "parse_binop_rhs cur s = (Some e, s') \<Longrightarrow>
     (if is_op (char_of (CurTok s)) then \<exists>op l r. e = BinaryExpr op l r \<and> is_op op else e = cur)"
proof (induction "remaining s" arbitrary: cur s rule: less_induct)
  case less
  show ?case
  proof (cases "is_op (char_of (CurTok s))")
    case False
    with less.prems show ?thesis by (simp add: parse_binop_rhs.simps [of cur s])
  next
    case True
    obtain r s1 where r: "parse_primary (get_next_token s) = (r, s1)"
      by (cases "parse_primary (get_next_token s)")
    with True less.prems obtain rhs where rhs: "r = Some rhs"
      and rec: "parse_binop_rhs (BinaryExpr (char_of (CurTok s)) cur rhs) s1 = (Some e, s')"
      by (cases r) (auto simp: parse_binop_rhs.simps [of cur s])
    have "remaining s1 \<le> remaining (get_next_token s)"
      using remaining_parse_primary [of "get_next_token s"] r by simp
    also have "\<dots> < remaining s"
      using True by (intro remaining_get_next_token_less is_op_not_eof)
    finally have lt: "remaining s1 < remaining s" .
    from less.hyps [OF lt rec] True show ?thesis by (auto split: if_splits)
  qed
qed

subsection \<open>Tokens are small integers\<close>

lemma of_char_int_range: "0 \<le> (of_char c :: int) \<and> (of_char c :: int) < 256"
proof -
  have "(of_char c :: int) = int (of_char c)" by (simp add: of_nat_of_char)
  moreover have "(of_char c :: nat) < 256" by simp
  ultimately show ?thesis by linarith
qed

lemma int_of_char_range: "- 128 \<le> int_of_char c \<and> int_of_char c \<le> 127"
  using of_char_int_range [of c] by (simp add: int_of_char_def)

lemma gettok_range: "- 128 \<le> fst (gettok s) \<and> fst (gettok s) \<le> 127"
proof -
  let ?s = "skip_space s"
  have "fst (gettok s) \<in> {tok_def, tok_extern, tok_ident, tok_num, tok_eof, int_of_char (last_char ?s)}"
    by (simp add: gettok_def Let_def split: prod.splits)
  then show ?thesis
    using int_of_char_range [of "last_char ?s"]
    by (auto simp: tok_def_def tok_extern_def tok_ident_def tok_num_def tok_eof_def)
qed

lemma is_op_char_of:
  fixes t :: int
  assumes "- 128 \<le> t" "t \<le> 127"
  shows "is_op (char_of t) = (t = of_char CHR ''+'' \<or> t = of_char CHR ''-'' \<or> t = of_char CHR ''*'')"
proof (cases "0 \<le> t")
  case True
  then have "t mod 256 = t" using assms by (intro mod_pos_pos_trivial) auto
  then show ?thesis
    by (auto simp: is_op_def char_of_eq_iff take_bit_eq_mod)
next
  case False
  have "t mod 256 = (t + 256) mod 256" by simp
  also have "\<dots> = t + 256" using False assms by (intro mod_pos_pos_trivial) auto
  finally show ?thesis
    using False assms by (auto simp: is_op_def char_of_eq_iff take_bit_eq_mod)
qed

lemma CurTok_get_next_token: "CurTok (get_next_token s) = fst (gettok s)"
  by (simp add: get_next_token_def split: prod.splits)

subsection \<open>How a failure travels\<close>

lemma parse_primary_unknown_token:
  "CurTok s \<noteq> tok_ident \<Longrightarrow> CurTok s \<noteq> tok_num \<Longrightarrow> parse_primary s = (None, s)"
  by (simp add: parse_primary.simps)

lemma parse_expr_unknown_token:
  "CurTok s \<noteq> tok_ident \<Longrightarrow> CurTok s \<noteq> tok_num \<Longrightarrow> parse_expr s = (None, s)"
  by (simp add: parse_expr.simps parse_primary_unknown_token)

lemma fail_definition_proto:
  "fst (parse_prototype (get_next_token s)) = None \<Longrightarrow> fst (parse_definition s) = None"
  by (auto simp: parse_definition_def split: prod.splits option.splits)

lemma fail_definition_body:
  "fst (parse_expr (snd (parse_prototype (get_next_token s)))) = None
   \<Longrightarrow> fst (parse_definition s) = None"
  by (auto simp: parse_definition_def split: prod.splits option.splits)

lemma fail_toplevel: "fst (parse_expr s) = None \<Longrightarrow> fst (parse_toplevel_expr s) = None"
  by (auto simp: parse_toplevel_expr_def split: prod.splits option.splits)

lemma fail_expr_primary: "fst (parse_primary s) = None \<Longrightarrow> fst (parse_expr s) = None"
  by (subst parse_expr.simps) (auto split: prod.splits option.splits)

lemma fail_expr_binop:
  "fst (parse_binop_rhs (the (fst (parse_primary s))) (snd (parse_primary s))) = None
   \<Longrightarrow> fst (parse_expr s) = None"
  by (subst parse_expr.simps) (auto split: prod.splits option.splits)

lemma fail_binop_primary:
  "is_op (char_of (CurTok s)) \<Longrightarrow> fst (parse_primary (get_next_token s)) = None
   \<Longrightarrow> fst (parse_binop_rhs cur s) = None"
  by (subst parse_binop_rhs.simps) (auto simp: Let_def split: prod.splits option.splits)

lemma fail_primary_ident:
  "CurTok s = tok_ident \<Longrightarrow> fst (parse_ident s) = None \<Longrightarrow> fst (parse_primary s) = None"
  by (subst parse_primary.simps) simp

lemma fail_ident_loop:
  "fst (parse_expr s) = None \<Longrightarrow> fst (parse_ident_loop args s) = None"
  by (subst parse_ident_loop.simps) (auto split: prod.splits option.splits)

lemma fail_ident:
  "CurTok (get_next_token s) = of_char CHR ''(''
   \<Longrightarrow> CurTok (get_next_token (get_next_token s)) \<noteq> of_char CHR '')''
   \<Longrightarrow> fst (parse_ident_loop [] (get_next_token (get_next_token s))) = None
   \<Longrightarrow> fst (parse_ident s) = None"
  by (subst parse_ident.simps) (auto simp: Let_def split: prod.splits option.splits)

lemma fail_prototype_loop:
  "fst (parse_ident s) = None \<Longrightarrow> fst (parse_prototype_loop argnames s) = None"
  by (subst parse_prototype_loop.simps) (auto split: prod.splits option.splits)

lemma fail_prototype:
  "CurTok s = tok_ident \<Longrightarrow> CurTok (get_next_token s) = of_char CHR ''(''
   \<Longrightarrow> CurTok (get_next_token (get_next_token s)) \<noteq> of_char CHR '')''
   \<Longrightarrow> fst (parse_prototype_loop [] (get_next_token (get_next_token s))) = None
   \<Longrightarrow> fst (parse_prototype s) = None"
  by (auto simp: parse_prototype_def Let_def split: prod.splits option.splits)

text \<open>One turn of the loop of \<open>parse_prototype\<close>, by the token after the parameter.\<close>

lemma parse_prototype_loop_step:
  assumes "parse_ident s = (Some a, s1)"
  shows "(CurTok s1 = of_char CHR '')'' \<longrightarrow>
            parse_prototype_loop argnames s = (Some (argnames @ [a]), s1))
       \<and> (CurTok s1 = of_char CHR '','' \<longrightarrow>
            parse_prototype_loop argnames s
              = parse_prototype_loop (argnames @ [a]) (get_next_token s1))
       \<and> (CurTok s1 \<noteq> of_char CHR '')'' \<and> CurTok s1 \<noteq> of_char CHR '','' \<longrightarrow>
            parse_prototype_loop argnames s = (None, s1))"
  using assms by (subst (1 2 3) parse_prototype_loop.simps) simp

subsection \<open>The lexer in closed form\<close>

text \<open>
  The loops of the lexer in closed form. \<open>at_rest s rest\<close> is the state \<open>s\<close> with the
  lexer standing before \<open>rest\<close>: its first character is the look-ahead, and at the end
  of the input the look-ahead is the end-of-file value.
\<close>

definition num_char :: "char \<Rightarrow> bool" where
  "num_char c = (isdigit (int_of_char c) \<or> c = CHR ''.'')"

definition at_rest :: "state \<Rightarrow> string \<Rightarrow> state" where
  "at_rest s rest = s\<lparr>input := tl rest, last_char := (case rest of [] \<Rightarrow> CHR 0xFF | c # cs \<Rightarrow> c)\<rparr>"

lemma char_of_EOF: "char_of EOF = CHR 0xFF"
  by (simp add: EOF_def char_of_def)

lemma not_num_char_EOF [simp]: "\<not> num_char (CHR 0xFF)"
  by (simp add: num_char_def isdigit_def int_of_char_def)

lemma read_char_at_rest: "read_char s = at_rest s (input s)"
  by (cases "input s") (simp_all add: read_char_def getchar_def at_rest_def char_of_EOF)

lemma at_rest_same [simp]: "at_rest s (last_char s # input s) = s"
  by (simp add: at_rest_def)

lemma at_rest_at_rest [simp]: "at_rest (at_rest s r) r' = at_rest s r'"
  by (simp add: at_rest_def)

lemma at_rest_fields [simp]:
  "input (at_rest s r) = tl r"
  "last_char (at_rest s r) = (case r of [] \<Rightarrow> CHR 0xFF | c # cs \<Rightarrow> c)"
  "IdentStr (at_rest s r) = IdentStr s"
  "NumVal (at_rest s r) = NumVal s"
  "CurTok (at_rest s r) = CurTok s"
  by (simp_all add: at_rest_def)

lemma read_number_run:
  "read_number acc s =
     (acc @ takeWhile num_char (last_char s # input s),
      at_rest s (dropWhile num_char (last_char s # input s)))"
proof (induction acc s rule: read_number.induct)
  case (1 acc s)
  show ?case
  proof (cases "num_char (last_char s)")
    case False
    then show ?thesis
      by (subst read_number.simps) (simp add: num_char_def)
  next
    case True
    then have c: "isdigit (int_of_char (last_char s)) \<or> last_char s = CHR ''.''"
      by (simp add: num_char_def)
    have "read_number acc s = read_number (acc @ [last_char s]) (read_char s)"
      using c by (subst read_number.simps) simp
    also have "\<dots> = (acc @ [last_char s] @ takeWhile num_char (last_char (read_char s) # input (read_char s)),
        at_rest (read_char s) (dropWhile num_char (last_char (read_char s) # input (read_char s))))"
      using "1.IH" [OF c] by simp
    also have "\<dots> = (acc @ takeWhile num_char (last_char s # input s),
        at_rest s (dropWhile num_char (last_char s # input s)))"
      using True by (cases "input s") (simp_all add: read_char_at_rest)
    finally show ?thesis .
  qed
qed

lemma skip_space_id: "\<not> isspace (int_of_char (last_char s)) \<Longrightarrow> skip_space s = s"
  by (subst skip_space.simps) simp

lemma num_char_not_space: "num_char c \<Longrightarrow> \<not> isspace (int_of_char c)"
  by (auto simp: num_char_def isspace_def isdigit_def int_of_char_def)

lemma num_char_not_alpha: "num_char c \<Longrightarrow> \<not> isalpha (int_of_char c)"
  by (auto simp: num_char_def isalpha_def isdigit_def int_of_char_def)

lemma gettok_number:
  assumes "isdigit (int_of_char (last_char s)) \<or> last_char s = CHR ''.''"
  shows "gettok s =
          (tok_num,
           s\<lparr>input := tl (dropWhile num_char (input s)),
             last_char := (case dropWhile num_char (input s) of [] \<Rightarrow> CHR 0xFF | c # cs \<Rightarrow> c),
             NumVal := strtod (last_char s # takeWhile num_char (input s))\<rparr>)"
proof -
  have n: "num_char (last_char s)" using assms by (simp add: num_char_def)
  have sk: "skip_space s = s" using n by (intro skip_space_id num_char_not_space)
  have "read_number [last_char s] (read_char s)
          = (last_char s # takeWhile num_char (input s), at_rest s (dropWhile num_char (input s)))"
    by (cases "input s") (simp_all add: read_number_run read_char_at_rest)
  then show ?thesis
    using assms n sk num_char_not_alpha [OF n] by (simp add: gettok_def at_rest_def)
qed

text \<open>
  The tokens that repeated calls of \<open>gettok\<close> return up to the end of the input, each
  with the payloads \<open>IdentStr\<close> and \<open>NumVal\<close> as they stand after the call.
\<close>

function tokens :: "state \<Rightarrow> (int \<times> string \<times> rat) list" where
  "tokens s =
     (case gettok s of
        (t, s1) \<Rightarrow> if t = tok_eof then [] else (t, IdentStr s1, NumVal s1) # tokens s1)"
  by pat_completeness auto
termination
proof (relation "measure pending", goal_cases)
  case 1
  show ?case by simp
next
  case (2 s x y)
  then show ?case using pending_gettok_less [of s] by (metis fst_conv snd_conv in_measure)
qed

declare tokens.simps [simp del]


definition space_char :: "char \<Rightarrow> bool" where
  "space_char c = isspace (int_of_char c)"

definition alnum_char :: "char \<Rightarrow> bool" where
  "alnum_char c = isalnum (int_of_char c)"

lemma not_space_char_EOF [simp]: "\<not> space_char (CHR 0xFF)"
  by (simp add: space_char_def isspace_def int_of_char_def)

lemma not_alnum_char_EOF [simp]: "\<not> alnum_char (CHR 0xFF)"
  by (simp add: alnum_char_def isalnum_def isalpha_def isdigit_def int_of_char_def)

lemma at_rest_Nil_EOF: "at_rest s [CHR 0xFF] = at_rest s []"
  by (simp add: at_rest_def)

lemma skip_space_run:
  "skip_space s = at_rest s (dropWhile space_char (last_char s # input s))"
proof (induction s rule: skip_space.induct)
  case (1 s)
  show ?case
  proof (cases "space_char (last_char s)")
    case False
    then show ?thesis by (subst skip_space.simps) (simp add: space_char_def)
  next
    case True
    then have c: "isspace (int_of_char (last_char s))" by (simp add: space_char_def)
    have "skip_space s = skip_space (read_char s)"
      using c by (subst skip_space.simps) simp
    also have "\<dots> = at_rest (read_char s)
        (dropWhile space_char (last_char (read_char s) # input (read_char s)))"
      using "1.IH" [OF c] .
    also have "\<dots> = at_rest s (dropWhile space_char (last_char s # input s))"
      using True by (cases "input s") (simp_all add: read_char_at_rest at_rest_Nil_EOF)
    finally show ?thesis .
  qed
qed

lemma at_rest_IdentStr_update [simp]:
  "at_rest (s\<lparr>IdentStr := x\<rparr>) r = (at_rest s r)\<lparr>IdentStr := x\<rparr>"
  by (simp add: at_rest_def)

lemma read_ident_run:
  "read_ident s =
     (at_rest s (dropWhile alnum_char (input s)))
       \<lparr>IdentStr := IdentStr s @ takeWhile alnum_char (input s)\<rparr>"
proof (induction s rule: read_ident.induct)
  case (1 s)
  show ?case
  proof (cases "input s")
    case Nil
    then show ?thesis
      using not_alnum_char_EOF
      by (subst read_ident.simps) (simp add: read_char_at_rest alnum_char_def at_rest_def)
  next
    case (Cons c cs)
    show ?thesis
    proof (cases "alnum_char c")
      case False
      with Cons show ?thesis
        by (subst read_ident.simps) (simp add: read_char_at_rest alnum_char_def at_rest_def)
    next
      case True
      let ?s1 = "read_char s"
      let ?s2 = "?s1\<lparr>IdentStr := IdentStr ?s1 @ [last_char ?s1]\<rparr>"
      have l: "last_char ?s1 = c" "input ?s1 = cs" "IdentStr ?s1 = IdentStr s"
        using Cons by (simp_all add: read_char_at_rest)
      have a: "isalnum (int_of_char (last_char ?s1))" using True l by (simp add: alnum_char_def)
      have "read_ident s = read_ident ?s2"
        using a by (subst read_ident.simps) (simp add: Let_def)
      also have "\<dots> = (at_rest ?s2 (dropWhile alnum_char (input ?s2)))
          \<lparr>IdentStr := IdentStr ?s2 @ takeWhile alnum_char (input ?s2)\<rparr>"
        using "1.IH" [OF refl a] .
      also have "\<dots> = (at_rest s (dropWhile alnum_char (input s)))
          \<lparr>IdentStr := IdentStr s @ takeWhile alnum_char (input s)\<rparr>"
        using True Cons l by (simp add: read_char_at_rest)
      finally show ?thesis .
    qed
  qed
qed


text \<open>
  Two states hold the same lexer input when they agree on the remaining characters and
  on the look-ahead, and the same lexer state when they agree on the payloads too.
  \<open>lexeme\<close> keeps of a token the payload that belongs to its kind. A character is plain
  unless its value as a \<open>char\<close> is that of one of the four negative token codes other
  than the end of the input (the bytes \<open>0xFB\<close> to \<open>0xFE\<close>), which \<open>gettok\<close>
  returns unchanged.
\<close>

definition same_lexer_input :: "state \<Rightarrow> state \<Rightarrow> bool" where
  "same_lexer_input s s' = (input s = input s' \<and> last_char s = last_char s')"

definition same_lexer_state :: "state \<Rightarrow> state \<Rightarrow> bool" where
  "same_lexer_state s s' =
     (input s = input s' \<and> last_char s = last_char s' \<and> IdentStr s = IdentStr s' \<and> NumVal s = NumVal s')"

lemma gettok_same_lexer_input:
  assumes "same_lexer_input s s'"
  shows "fst (gettok s) = fst (gettok s') \<and> same_lexer_input (snd (gettok s)) (snd (gettok s'))"
proof -
  have i: "input s = input s'" and l: "last_char s = last_char s'"
    using assms by (simp_all add: same_lexer_input_def)
  show ?thesis
    by (simp add: gettok_def Let_def skip_space_run read_ident_run read_number_run
        read_char_at_rest same_lexer_input_def i l)
qed

lemma gettok_same_lexer_state:
  assumes "same_lexer_state s s'"
  shows "fst (gettok s) = fst (gettok s') \<and> same_lexer_state (snd (gettok s)) (snd (gettok s'))"
proof -
  have i: "input s = input s'" and l: "last_char s = last_char s'"
    and d: "IdentStr s = IdentStr s'" and n: "NumVal s = NumVal s'"
    using assms by (simp_all add: same_lexer_state_def)
  show ?thesis
    by (simp add: gettok_def Let_def skip_space_run read_ident_run read_number_run
        read_char_at_rest same_lexer_state_def i l d n)
qed

lemma tokens_same_lexer_input:
  "same_lexer_input s s' \<Longrightarrow> map fst (tokens s) = map fst (tokens s')"
proof (induction s arbitrary: s' rule: tokens.induct)
  case (1 s)
  obtain t s1 where g: "gettok s = (t, s1)" by (cases "gettok s")
  obtain t' s1' where g': "gettok s' = (t', s1')" by (cases "gettok s'")
  have e: "t = t'" and r: "same_lexer_input s1 s1'"
    using gettok_same_lexer_input [OF "1.prems"] g g' by simp_all
  show ?case
  proof (cases "t = tok_eof")
    case True
    with e g g' show ?thesis by (simp add: tokens.simps [of s] tokens.simps [of s'])
  next
    case False
    have "map fst (tokens s1) = map fst (tokens s1')"
      using "1.IH" [OF g [symmetric] False r] .
    with False e g g' show ?thesis by (simp add: tokens.simps [of s] tokens.simps [of s'])
  qed
qed

lemma tokens_same_lexer_state:
  "same_lexer_state s s' \<Longrightarrow> tokens s = tokens s'"
proof (induction s arbitrary: s' rule: tokens.induct)
  case (1 s)
  obtain t s1 where g: "gettok s = (t, s1)" by (cases "gettok s")
  obtain t' s1' where g': "gettok s' = (t', s1')" by (cases "gettok s'")
  have e: "t = t'" and r: "same_lexer_state s1 s1'"
    using gettok_same_lexer_state [OF "1.prems"] g g' by simp_all
  show ?case
  proof (cases "t = tok_eof")
    case True
    with e g g' show ?thesis by (simp add: tokens.simps [of s] tokens.simps [of s'])
  next
    case False
    have "tokens s1 = tokens s1'"
      using "1.IH" [OF g [symmetric] False r] .
    with False e g g' r show ?thesis
      by (simp add: tokens.simps [of s] tokens.simps [of s'] same_lexer_state_def)
  qed
qed


definition lexeme :: "int \<times> string \<times> rat \<Rightarrow> int \<times> string option \<times> rat option" where
  "lexeme tk =
     (case tk of (t, ident, num) \<Rightarrow>
        (t, if t = tok_ident \<or> t = tok_def \<or> t = tok_extern then Some ident else None,
            if t = tok_num then Some num else None))"

definition plain_char :: "char \<Rightarrow> bool" where
  "plain_char c = (int_of_char c \<notin> {tok_def, tok_extern, tok_ident, tok_num})"

definition plain_state :: "state \<Rightarrow> bool" where
  "plain_state s = (\<forall>c \<in> set (last_char s # input s). plain_char c)"

lemma plain_char_EOF [simp]: "plain_char (CHR 0xFF)"
  by (simp add: plain_char_def int_of_char_def tok_def_def tok_extern_def tok_ident_def tok_num_def)

lemma plain_state_at_rest: "\<forall>c \<in> set r. plain_char c \<Longrightarrow> plain_state (at_rest s r)"
  by (cases r) (simp_all add: plain_state_def)

lemma plain_state_updates [simp]:
  "plain_state (s\<lparr>IdentStr := x\<rparr>) = plain_state s"
  "plain_state (s\<lparr>NumVal := y\<rparr>) = plain_state s"
  by (simp_all add: plain_state_def)

lemma plain_dropWhile: "\<forall>c \<in> set xs. plain_char c \<Longrightarrow> \<forall>c \<in> set (dropWhile P xs). plain_char c"
  using set_dropWhileD by fast

lemma plain_state_skip_space: "plain_state s \<Longrightarrow> plain_state (skip_space s)"
  unfolding skip_space_run
  by (rule plain_state_at_rest, rule plain_dropWhile) (simp add: plain_state_def)

lemma plain_state_read_char: "plain_state s \<Longrightarrow> plain_state (read_char s)"
  unfolding read_char_at_rest
  by (rule plain_state_at_rest) (simp add: plain_state_def)

lemma plain_state_read_ident: "plain_state s \<Longrightarrow> plain_state (read_ident s)"
  unfolding read_ident_run plain_state_updates
  by (rule plain_state_at_rest, rule plain_dropWhile) (simp add: plain_state_def)

lemma plain_state_read_number: "plain_state s \<Longrightarrow> plain_state (snd (read_number acc s))"
  unfolding read_number_run snd_conv
  by (rule plain_state_at_rest, rule plain_dropWhile) (simp add: plain_state_def)

definition keyword_or_ident :: "string \<Rightarrow> int" where
  "keyword_or_ident str =
     (if str = ''def'' then tok_def else if str = ''extern'' then tok_extern else tok_ident)"

lemma gettok_ident:
  assumes "isalpha (int_of_char (last_char (skip_space s)))"
  shows "gettok s =
     (keyword_or_ident (last_char (skip_space s) # takeWhile alnum_char (input (skip_space s))),
      (at_rest (skip_space s) (dropWhile alnum_char (input (skip_space s))))
        \<lparr>IdentStr := last_char (skip_space s) # takeWhile alnum_char (input (skip_space s))\<rparr>)"
  using assms by (simp add: gettok_def Let_def read_ident_run keyword_or_ident_def)

lemma gettok_num:
  assumes "\<not> isalpha (int_of_char (last_char (skip_space s)))"
    and "num_char (last_char (skip_space s))"
  shows "gettok s =
     (tok_num,
      (at_rest (skip_space s) (dropWhile num_char (input (skip_space s))))
        \<lparr>NumVal := strtod (last_char (skip_space s) # takeWhile num_char (input (skip_space s)))\<rparr>)"
proof -
  let ?s = "skip_space s"
  have c: "isdigit (int_of_char (last_char ?s)) \<or> last_char ?s = CHR ''.''"
    using assms(2) by (simp add: num_char_def)
  have "read_number [last_char ?s] (read_char ?s)
          = (last_char ?s # takeWhile num_char (input ?s), at_rest ?s (dropWhile num_char (input ?s)))"
    by (cases "input ?s") (simp_all add: read_number_run read_char_at_rest)
  then show ?thesis
    using assms(1) c by (simp add: gettok_def Let_def)
qed

lemma gettok_eof:
  assumes "int_of_char (last_char (skip_space s)) = EOF"
  shows "gettok s = (tok_eof, skip_space s)"
proof -
  let ?c = "int_of_char (last_char (skip_space s))"
  have "\<not> isalpha ?c" "\<not> isdigit ?c" "last_char (skip_space s) \<noteq> CHR ''.''"
    using assms isalpha_not_EOF isdigit_not_EOF dot_not_EOF by auto
  with assms show ?thesis by (simp add: gettok_def Let_def)
qed

lemma gettok_char:
  assumes "\<not> isalpha (int_of_char (last_char (skip_space s)))"
    and "\<not> num_char (last_char (skip_space s))"
    and "int_of_char (last_char (skip_space s)) \<noteq> EOF"
  shows "gettok s = (int_of_char (last_char (skip_space s)), read_char (skip_space s))"
  using assms by (simp add: gettok_def Let_def num_char_def)

lemma skip_space_same_lexer_input:
  "same_lexer_input s s' \<Longrightarrow> same_lexer_input (skip_space s) (skip_space s')"
  by (simp add: skip_space_run same_lexer_input_def)

lemma plain_state_gettok:
  assumes "plain_state s"
  shows "plain_state (snd (gettok s))"
proof -
  let ?s = "skip_space s"
  let ?c = "last_char ?s"
  have p: "plain_state ?s" using assms by (rule plain_state_skip_space)
  then have i: "\<forall>c \<in> set (input ?s). plain_char c" by (simp add: plain_state_def)
  consider (ident) "isalpha (int_of_char ?c)"
    | (num) "\<not> isalpha (int_of_char ?c)" "num_char ?c"
    | (eof) "int_of_char ?c = EOF"
    | (char) "\<not> isalpha (int_of_char ?c)" "\<not> num_char ?c" "int_of_char ?c \<noteq> EOF"
    by blast
  then show ?thesis
  proof cases
    case ident
    then show ?thesis
      using i by (simp add: gettok_ident plain_state_at_rest plain_dropWhile)
  next
    case num
    then show ?thesis
      using i by (simp add: gettok_num plain_state_at_rest plain_dropWhile)
  next
    case eof
    then show ?thesis using p by (simp add: gettok_eof)
  next
    case char
    then show ?thesis using p by (simp add: gettok_char plain_state_read_char)
  qed
qed

lemma tok_distinct:
  "tok_eof \<noteq> tok_ident" "tok_eof \<noteq> tok_def" "tok_eof \<noteq> tok_extern" "tok_eof \<noteq> tok_num"
  "tok_num \<noteq> tok_ident" "tok_num \<noteq> tok_def" "tok_num \<noteq> tok_extern"
  "tok_ident \<noteq> tok_num" "tok_def \<noteq> tok_num" "tok_extern \<noteq> tok_num"
  by (simp_all add: tok_eof_def tok_def_def tok_extern_def tok_ident_def tok_num_def)

lemma gettok_lexeme:
  assumes "same_lexer_input s s'" and "plain_state s"
  shows "lexeme (fst (gettok s), IdentStr (snd (gettok s)), NumVal (snd (gettok s)))
       = lexeme (fst (gettok s'), IdentStr (snd (gettok s')), NumVal (snd (gettok s')))"
proof -
  let ?s = "skip_space s"
  let ?c = "last_char ?s"
  have "same_lexer_input ?s (skip_space s')"
    using assms(1) by (rule skip_space_same_lexer_input)
  then have i: "input (skip_space s') = input ?s" and l: "last_char (skip_space s') = ?c"
    by (simp_all add: same_lexer_input_def)
  have "plain_state ?s" using assms(2) by (rule plain_state_skip_space)
  then have "plain_char ?c" by (simp add: plain_state_def)
  then have p: "int_of_char ?c \<noteq> tok_ident" "int_of_char ?c \<noteq> tok_def"
    "int_of_char ?c \<noteq> tok_extern" "int_of_char ?c \<noteq> tok_num"
    by (simp_all add: plain_char_def)
  consider (ident) "isalpha (int_of_char ?c)"
    | (num) "\<not> isalpha (int_of_char ?c)" "num_char ?c"
    | (eof) "int_of_char ?c = EOF"
    | (char) "\<not> isalpha (int_of_char ?c)" "\<not> num_char ?c" "int_of_char ?c \<noteq> EOF"
    by blast
  then show ?thesis
  proof cases
    case ident
    then have "isalpha (int_of_char (last_char (skip_space s')))" by (simp add: l)
    from gettok_ident [OF ident] gettok_ident [OF this] show ?thesis
      by (simp add: i l lexeme_def keyword_or_ident_def tok_distinct)
  next
    case num
    then have "\<not> isalpha (int_of_char (last_char (skip_space s')))"
      and "num_char (last_char (skip_space s'))" by (simp_all add: l)
    from gettok_num [OF num] gettok_num [OF this] show ?thesis
      by (simp add: i l lexeme_def tok_distinct)
  next
    case eof
    then have "int_of_char (last_char (skip_space s')) = EOF" by (simp add: l)
    from gettok_eof [OF eof] gettok_eof [OF this] show ?thesis
      by (simp add: lexeme_def tok_distinct)
  next
    case char
    then have "\<not> isalpha (int_of_char (last_char (skip_space s')))"
      and "\<not> num_char (last_char (skip_space s'))"
      and "int_of_char (last_char (skip_space s')) \<noteq> EOF" by (simp_all add: l)
    from gettok_char [OF char] gettok_char [OF this] show ?thesis
      using p by (simp add: l lexeme_def)
  qed
qed

lemma tokens_lexeme:
  "same_lexer_input s s' \<Longrightarrow> plain_state s \<Longrightarrow> map lexeme (tokens s) = map lexeme (tokens s')"
proof (induction s arbitrary: s' rule: tokens.induct)
  case (1 s)
  obtain t s1 where g: "gettok s = (t, s1)" by (cases "gettok s")
  obtain t' s1' where g': "gettok s' = (t', s1')" by (cases "gettok s'")
  have e: "t = t'" and r: "same_lexer_input s1 s1'"
    using gettok_same_lexer_input [OF "1.prems"(1)] g g' by simp_all
  have p: "plain_state s1" using plain_state_gettok [OF "1.prems"(2)] g by simp
  have x: "lexeme (t, IdentStr s1, NumVal s1) = lexeme (t', IdentStr s1', NumVal s1')"
    using gettok_lexeme [OF "1.prems"] g g' by simp
  show ?case
  proof (cases "t = tok_eof")
    case True
    with e g g' show ?thesis by (simp add: tokens.simps [of s] tokens.simps [of s'])
  next
    case False
    have "map lexeme (tokens s1) = map lexeme (tokens s1')"
      using "1.IH" [OF g [symmetric] False r p] .
    with False e g g' x show ?thesis by (simp add: tokens.simps [of s] tokens.simps [of s'])
  qed
qed

lemma num_char_examples:
  "num_char CHR ''.''" "num_char CHR ''1''" "num_char CHR ''2''" "num_char CHR ''3''"
  "\<not> num_char CHR ''+''"
  by code_simp+

subsection \<open>Chains of operands\<close>

text \<open>
  Operands joined by operators, as a text and as the tree read from left to right. An
  operand is a number (a non-empty string of digits and points) or a name (a letter
  followed by letters and digits, other than the two keywords); \<open>chain_text a ps\<close> is
  the operand \<open>a\<close> followed by each operator and operand of \<open>ps\<close>, with nothing in
  between, and \<open>chain_expr a ps\<close> nests them to the left.
\<close>

definition is_number :: "string \<Rightarrow> bool" where
  "is_number n = (n \<noteq> [] \<and> (\<forall>c \<in> set n. num_char c))"

definition is_name :: "string \<Rightarrow> bool" where
  "is_name v = (v \<noteq> [] \<and> isalpha (int_of_char (hd v)) \<and> (\<forall>c \<in> set v. alnum_char c)
                \<and> v \<noteq> ''def'' \<and> v \<noteq> ''extern'')"

definition operand :: "string \<Rightarrow> expr" where
  "operand a = (if is_number a then NumExpr (strtod a) else VarExpr a)"

definition chain_text :: "string \<Rightarrow> (char \<times> string) list \<Rightarrow> string" where
  "chain_text a ps = a @ concat (map (\<lambda>(op, b). op # b) ps)"

definition chain_expr :: "string \<Rightarrow> (char \<times> string) list \<Rightarrow> expr" where
  "chain_expr a ps = foldl (\<lambda>acc (op, b). BinaryExpr op acc (operand b)) (operand a) ps"

text \<open>
  \<open>before s r\<close>: after the blanks, the lexer in state \<open>s\<close> stands before the text
  \<open>r\<close>. \<open>holds s a\<close>: the current token is the operand \<open>a\<close>. \<open>at_op s ps\<close>: the
  current token is the first operator of \<open>ps\<close> and the lexer stands before what follows
  it, or \<open>ps\<close> is empty and the input has ended.
\<close>

definition before :: "state \<Rightarrow> string \<Rightarrow> bool" where
  "before s r =
     (last_char (skip_space s) # input (skip_space s) = (if r = [] then [CHR 0xFF] else r))"

lemma is_op_cases: "is_op c \<Longrightarrow> c = CHR ''+'' \<or> c = CHR ''-'' \<or> c = CHR ''*''"
  by (simp add: is_op_def split: if_splits)

lemma is_op_chars:
  assumes "is_op c"
  shows "\<not> space_char c \<and> \<not> alnum_char c \<and> \<not> num_char c
    \<and> \<not> isalpha (int_of_char c) \<and> int_of_char c \<noteq> EOF \<and> char_of (int_of_char c) = c
    \<and> int_of_char c \<noteq> of_char CHR ''(''"
  using is_op_cases [OF assms]
  by (elim disjE)
     (simp_all add: space_char_def alnum_char_def num_char_def isspace_def isalnum_def
      isalpha_def isdigit_def int_of_char_def EOF_def char_of_def)

lemma not_space_skip_space: "\<not> isspace (int_of_char (last_char (skip_space s)))"
proof -
  let ?r = "dropWhile space_char (last_char s # input s)"
  show ?thesis
  proof (cases ?r)
    case Nil
    then show ?thesis using not_space_char_EOF by (simp add: skip_space_run space_char_def)
  next
    case (Cons c cs)
    then have "\<not> space_char c" using hd_dropWhile [of space_char "last_char s # input s"] by simp
    with Cons show ?thesis by (simp add: skip_space_run space_char_def)
  qed
qed

lemma skip_space_idem [simp]: "skip_space (skip_space s) = skip_space s"
  by (rule skip_space_id) (rule not_space_skip_space)

lemma skip_space_updates [simp]:
  "skip_space (s\<lparr>CurTok := t\<rparr>) = (skip_space s)\<lparr>CurTok := t\<rparr>"
  "skip_space (s\<lparr>NumVal := n\<rparr>) = (skip_space s)\<lparr>NumVal := n\<rparr>"
  "skip_space (s\<lparr>IdentStr := i\<rparr>) = (skip_space s)\<lparr>IdentStr := i\<rparr>"
  by (simp_all add: skip_space_run at_rest_def)

lemma before_updates [simp]:
  "before (s\<lparr>CurTok := t\<rparr>) r = before s r"
  "before (s\<lparr>NumVal := n\<rparr>) r = before s r"
  "before (s\<lparr>IdentStr := i\<rparr>) r = before s r"
  by (simp_all add: before_def)

lemma before_at_rest:
  assumes "r = [] \<or> \<not> space_char (hd r)"
  shows "before (at_rest s r) r"
proof -
  have "\<not> isspace (int_of_char (last_char (at_rest s r)))"
    using assms not_space_char_EOF by (cases r) (auto simp: space_char_def)
  then have "skip_space (at_rest s r) = at_rest s r" by (rule skip_space_id)
  then show ?thesis by (cases r) (simp_all add: before_def)
qed

lemma before_init_state:
  assumes "r = [] \<or> \<not> space_char (hd r)"
  shows "before (init_state r) r"
proof -
  have "space_char CHR '' ''" by (simp add: space_char_def isspace_def int_of_char_def)
  then have "skip_space (init_state r) = at_rest (init_state r) (dropWhile space_char r)"
    by (simp add: skip_space_run init_state_def)
  also have "dropWhile space_char r = r" using assms by (cases r) auto
  finally show ?thesis using assms by (cases r) (simp_all add: before_def)
qed

lemma takeWhile_run:
  assumes "\<forall>x \<in> set xs. P x" and "ys = [] \<or> \<not> P (hd ys)"
  shows "takeWhile P (xs @ ys) = xs" and "dropWhile P (xs @ ys) = ys"
proof -
  have "takeWhile P ys = []" "dropWhile P ys = ys" using assms(2) by (cases ys; auto)+
  with assms(1) show "takeWhile P (xs @ ys) = xs" and "dropWhile P (xs @ ys) = ys"
    by (simp_all add: takeWhile_append2 dropWhile_append2)
qed

lemma gettok_before_number:
  assumes "before s (n @ r)" and "is_number n" and "r = [] \<or> is_op (hd r)"
  shows "gettok s = (tok_num, (at_rest (skip_space s) r)\<lparr>NumVal := strtod n\<rparr>)"
proof -
  let ?s = "skip_space s"
  from assms(2) obtain c cs where n: "n = c # cs" and nc: "\<forall>x \<in> set n. num_char x"
    by (cases n) (auto simp: is_number_def)
  have v: "last_char ?s = c" "input ?s = cs @ r" using assms(1) n by (simp_all add: before_def)
  have e: "r = [] \<or> \<not> num_char (hd r)" using assms(3) is_op_chars by blast
  have t: "takeWhile num_char (cs @ r) = cs" "dropWhile num_char (cs @ r) = r"
    using takeWhile_run [of cs num_char r] nc n e by simp_all
  have "num_char c" using nc n by simp
  then show ?thesis
    using gettok_num [of s] num_char_not_alpha [of c] v t n by simp
qed

lemma gettok_before_name:
  assumes "before s (v @ r)" and "is_name v" and "r = [] \<or> is_op (hd r)"
  shows "gettok s = (tok_ident, (at_rest (skip_space s) r)\<lparr>IdentStr := v\<rparr>)"
proof -
  let ?s = "skip_space s"
  from assms(2) obtain c cs where n: "v = c # cs" and a: "isalpha (int_of_char c)"
    and nc: "\<forall>x \<in> set cs. alnum_char x" and k: "keyword_or_ident v = tok_ident"
    by (cases v) (auto simp: is_name_def keyword_or_ident_def)
  have w: "last_char ?s = c" "input ?s = cs @ r" using assms(1) n by (simp_all add: before_def)
  have e: "r = [] \<or> \<not> alnum_char (hd r)" using assms(3) is_op_chars by blast
  have t: "takeWhile alnum_char (cs @ r) = cs" "dropWhile alnum_char (cs @ r) = r"
    using takeWhile_run [of cs alnum_char r] nc e by simp_all
  show ?thesis
    using gettok_ident [of s] a w t n k by simp
qed

lemma gettok_before_op:
  assumes "before s (op # r)" and "is_op op"
  shows "gettok s = (int_of_char op, at_rest (skip_space s) r)"
proof -
  let ?s = "skip_space s"
  have w: "last_char ?s = op" "input ?s = r" using assms(1) by (simp_all add: before_def)
  show ?thesis
    using gettok_char [of s] is_op_chars [OF assms(2)] w by (simp add: read_char_at_rest)
qed

lemma gettok_before_end:
  assumes "before s []"
  shows "gettok s = (tok_eof, skip_space s)"
proof -
  have "last_char (skip_space s) = CHR 0xFF" using assms by (simp add: before_def)
  then show ?thesis by (intro gettok_eof) (simp add: int_of_char_def EOF_def)
qed

definition is_operand :: "string \<Rightarrow> bool" where
  "is_operand a = (is_number a \<or> is_name a)"

definition rest_text :: "(char \<times> string) list \<Rightarrow> string" where
  "rest_text ps = concat (map (\<lambda>(op, b). op # b) ps)"

definition holds :: "state \<Rightarrow> string \<Rightarrow> bool" where
  "holds s a =
     (if is_number a then CurTok s = tok_num \<and> NumVal s = strtod a
      else CurTok s = tok_ident \<and> IdentStr s = a)"

fun at_op :: "state \<Rightarrow> (char \<times> string) list \<Rightarrow> bool" where
  "at_op s [] = (CurTok s = tok_eof \<and> before s [])"
| "at_op s ((op, b) # ps) = (CurTok s = int_of_char op \<and> before s (b @ rest_text ps))"

lemma rest_text_simps [simp]:
  "rest_text [] = []" "rest_text ((op, b) # ps) = op # b @ rest_text ps"
  by (simp_all add: rest_text_def)

lemma is_name_not_number: "is_name a \<Longrightarrow> \<not> is_number a"
proof
  assume n: "is_name a" and m: "is_number a"
  then obtain c cs where a: "a = c # cs" by (cases a) (auto simp: is_name_def)
  with n m have "isalpha (int_of_char c)" "num_char c" by (auto simp: is_name_def is_number_def)
  then show False using num_char_not_alpha by blast
qed

lemma operand_not_space: "is_operand a \<Longrightarrow> a \<noteq> [] \<and> \<not> space_char (hd a)"
proof -
  assume "is_operand a"
  then consider "is_number a" | "is_name a" by (auto simp: is_operand_def)
  then show ?thesis
  proof cases
    case 1
    then obtain c cs where "a = c # cs" "num_char c" by (cases a) (auto simp: is_number_def)
    then show ?thesis using num_char_not_space by (simp add: space_char_def)
  next
    case 2
    then obtain c cs where "a = c # cs" "isalpha (int_of_char c)"
      by (cases a) (auto simp: is_name_def)
    then show ?thesis by (auto simp: space_char_def isspace_def isalpha_def)
  qed
qed

lemma rest_text_head:
  "\<forall>(op, b) \<in> set ps. is_op op \<and> is_operand b \<Longrightarrow> rest_text ps = [] \<or> is_op (hd (rest_text ps))"
  by (cases ps) auto

lemma not_space_op_head: "r = [] \<or> is_op (hd r) \<Longrightarrow> r = [] \<or> \<not> space_char (hd r)"
  using is_op_chars by blast

lemma get_next_token_operand:
  assumes "before s (a @ r)" and "is_operand a" and "r = [] \<or> is_op (hd r)"
  shows "holds (get_next_token s) a \<and> before (get_next_token s) r"
proof (cases "is_number a")
  case True
  from gettok_before_number [OF assms(1) True assms(3)] before_at_rest [OF not_space_op_head [OF assms(3)]]
  show ?thesis using True by (simp add: get_next_token_def holds_def)
next
  case False
  then have n: "is_name a" using assms(2) by (simp add: is_operand_def)
  from gettok_before_name [OF assms(1) n assms(3)] before_at_rest [OF not_space_op_head [OF assms(3)]]
  show ?thesis using False by (simp add: get_next_token_def holds_def)
qed

lemma get_next_token_at_op:
  assumes "before s (rest_text ps)" and "\<forall>(op, b) \<in> set ps. is_op op \<and> is_operand b"
  shows "at_op (get_next_token s) ps"
proof (cases ps)
  case Nil
  with assms(1) have b0: "before s []" by simp
  from gettok_before_end [OF b0] b0 show ?thesis
    using Nil by (simp add: get_next_token_def before_def)
next
  case (Cons p ps')
  obtain op b where p: "p = (op, b)" by (cases p)
  with Cons assms have b: "before s (op # b @ rest_text ps')" and o: "is_op op"
    and a: "is_operand b" by simp_all
  have "b @ rest_text ps' = [] \<or> \<not> space_char (hd (b @ rest_text ps'))"
    using operand_not_space [OF a] by simp
  from gettok_before_op [OF b o] before_at_rest [OF this] show ?thesis
    using Cons p by (simp add: get_next_token_def)
qed

lemma CurTok_at_op_not_paren:
  assumes "at_op s ps" and "\<forall>(op, b) \<in> set ps. is_op op \<and> is_operand b"
  shows "CurTok s \<noteq> of_char CHR ''(''"
proof (cases ps)
  case Nil
  with assms(1) show ?thesis by (simp add: tok_eof_def)
next
  case (Cons p ps')
  obtain op b where p: "p = (op, b)" by (cases p)
  with Cons assms have "CurTok s = int_of_char op" "is_op op" by simp_all
  then show ?thesis using is_op_chars by simp
qed

lemma parse_primary_operand:
  assumes "holds s a" and "is_operand a" and "before s (rest_text ps)"
    and "\<forall>(op, b) \<in> set ps. is_op op \<and> is_operand b"
  shows "parse_primary s = (Some (operand a), get_next_token s)"
proof (cases "is_number a")
  case True
  with assms(1) show ?thesis
    by (simp add: holds_def parse_primary.simps [of s] parse_number_def operand_def
        tok_num_def tok_ident_def)
next
  case False
  have "CurTok (get_next_token s) \<noteq> of_char CHR ''(''"
    using CurTok_at_op_not_paren [OF get_next_token_at_op [OF assms(3,4)] assms(4)] .
  with False assms(1) show ?thesis
    by (simp add: holds_def parse_primary.simps [of s] parse_ident.simps [of s] operand_def Let_def)
qed

lemma parse_binop_rhs_chain:
  "at_op s ps \<Longrightarrow> \<forall>(op, b) \<in> set ps. is_op op \<and> is_operand b \<Longrightarrow>
   fst (parse_binop_rhs cur s) = Some (foldl (\<lambda>acc (op, b). BinaryExpr op acc (operand b)) cur ps)"
proof (induction ps arbitrary: cur s)
  case Nil
  then have "\<not> is_op (char_of (CurTok s))" using is_op_not_eof by auto
  then show ?case by (simp add: parse_binop_rhs.simps [of cur s])
next
  case (Cons p ps)
  obtain op b where p: "p = (op, b)" by (cases p)
  with Cons.prems have c: "CurTok s = int_of_char op" and bf: "before s (b @ rest_text ps)"
    and o: "is_op op" and a: "is_operand b"
    and ok: "\<forall>(op, b) \<in> set ps. is_op op \<and> is_operand b" by simp_all
  have co: "char_of (CurTok s) = op" using c is_op_chars [OF o] by simp
  let ?s1 = "get_next_token s"
  have h: "holds ?s1 b" and bf1: "before ?s1 (rest_text ps)"
    using get_next_token_operand [OF bf a rest_text_head [OF ok]] by simp_all
  have pp: "parse_primary ?s1 = (Some (operand b), get_next_token ?s1)"
    using parse_primary_operand [OF h a bf1 ok] .
  have "at_op (get_next_token ?s1) ps" using get_next_token_at_op [OF bf1 ok] .
  from Cons.IH [OF this ok, of "BinaryExpr op cur (operand b)"] show ?case
    using co o pp p by (simp add: parse_binop_rhs.simps [of cur s])
qed

lemma parse_expr_chain:
  assumes "is_operand a" and "\<forall>(op, b) \<in> set ps. is_op op \<and> is_operand b"
  shows "fst (parse_expr (get_next_token (init_state (chain_text a ps)))) = Some (chain_expr a ps)"
proof -
  let ?s0 = "init_state (chain_text a ps)"
  let ?s1 = "get_next_token ?s0"
  have t: "chain_text a ps = a @ rest_text ps" by (simp add: chain_text_def rest_text_def)
  have "before ?s0 (a @ rest_text ps)"
    unfolding t using operand_not_space [OF assms(1)] by (intro before_init_state) simp
  from get_next_token_operand [OF this assms(1) rest_text_head [OF assms(2)]]
  have h: "holds ?s1 a" and bf1: "before ?s1 (rest_text ps)" by simp_all
  have pp: "parse_primary ?s1 = (Some (operand a), get_next_token ?s1)"
    using parse_primary_operand [OF h assms(1) bf1 assms(2)] .
  have "at_op (get_next_token ?s1) ps" using get_next_token_at_op [OF bf1 assms(2)] .
  from parse_binop_rhs_chain [OF this assms(2), of "operand a"] show ?thesis
    using pp by (simp add: parse_expr.simps [of ?s1] chain_expr_def)
qed

section \<open>The claims\<close>

text \<open>
  The driver reads the first token before it calls the parser, so an input is parsed
  from \<open>get_next_token (init_state input)\<close>; \<open>parse_definition\<close> and
  \<open>parse_extern\<close> read past the keyword themselves.
\<close>

subsection \<open>Binary expressions\<close>

text \<open>
  Claim C1. Whatever the input, a tree that \<open>parse_expr\<close> returns is strictly
  left-associative and precedence-flat: each right operand along its left spine is a
  primary, never a binary expression, whichever of the operators \<open>+\<close>, \<open>-\<close>,
  \<open>*\<close> joins them. For every input that is a chain of numbers and names joined by
  these operators, \<open>parse_expr\<close> succeeds and returns the operands nested to the left
  in the order of the input. In particular \<open>1-2*3\<close> parses to \<open>(1 - 2) * 3\<close>.
\<close>

theorem parse_expr_left_associative:
  "(\<forall>s e s'. parse_expr s = (Some e, s') \<longrightarrow> left_assoc e)
   \<and> (is_operand a \<and> (\<forall>(op, b) \<in> set ps. is_op op \<and> is_operand b) \<longrightarrow>
        fst (parse_expr (get_next_token (init_state (chain_text a ps)))) = Some (chain_expr a ps))
   \<and> fst (parse_expr (get_next_token (init_state ''1-2*3'')))
       = Some (BinaryExpr CHR ''*'' (BinaryExpr CHR ''-'' (NumExpr 1) (NumExpr 2)) (NumExpr 3))"
proof (intro conjI allI impI)
  fix s e s'
  assume "parse_expr s = (Some e, s')"
  then show "left_assoc e" by (rule parse_expr_left_assoc)
next
  assume "is_operand a \<and> (\<forall>(op, b) \<in> set ps. is_op op \<and> is_operand b)"
  then show "fst (parse_expr (get_next_token (init_state (chain_text a ps)))) = Some (chain_expr a ps)"
    using parse_expr_chain [of a ps] by blast
next
  show "fst (parse_expr (get_next_token (init_state ''1-2*3'')))
       = Some (BinaryExpr CHR ''*'' (BinaryExpr CHR ''-'' (NumExpr 1) (NumExpr 2)) (NumExpr 3))"
    by code_simp
qed

theorem parse_expr_left_associative_witness:
  "parse_expr (get_next_token (init_state ''4*5+x-f(6)''))
     = (Some (BinaryExpr CHR ''-''
               (BinaryExpr CHR ''+'' (BinaryExpr CHR ''*'' (NumExpr 4) (NumExpr 5)) (VarExpr ''x''))
               (CallExpr ''f'' [NumExpr 6])),
        \<lparr>input = [], last_char = CHR 0xFF, IdentStr = ''f'', NumVal = 6, CurTok = tok_eof\<rparr>)
   \<and> left_assoc (BinaryExpr CHR ''-''
               (BinaryExpr CHR ''+'' (BinaryExpr CHR ''*'' (NumExpr 4) (NumExpr 5)) (VarExpr ''x''))
               (CallExpr ''f'' [NumExpr 6]))
   \<and> is_operand ''1.5''
   \<and> is_op CHR ''-'' \<and> is_operand ''x2'' \<and> is_op CHR ''*'' \<and> is_operand ''3''
   \<and> is_op CHR ''+'' \<and> is_operand ''y''
   \<and> chain_text ''1.5'' [(CHR ''-'', ''x2''), (CHR ''*'', ''3''), (CHR ''+'', ''y'')] = ''1.5-x2*3+y''
   \<and> fst (parse_expr (get_next_token (init_state ''1.5-x2*3+y'')))
       = Some (BinaryExpr CHR ''+''
                (BinaryExpr CHR ''*'' (BinaryExpr CHR ''-'' (NumExpr (3 / 2)) (VarExpr ''x2''))
                   (NumExpr 3))
                (VarExpr ''y''))"
proof -
  let ?ps = "[(CHR ''-'', ''x2''), (CHR ''*'', ''3''), (CHR ''+'', ''y'')]"
  have h: "parse_expr (get_next_token (init_state ''4*5+x-f(6)''))
     = (Some (BinaryExpr CHR ''-''
               (BinaryExpr CHR ''+'' (BinaryExpr CHR ''*'' (NumExpr 4) (NumExpr 5)) (VarExpr ''x''))
               (CallExpr ''f'' [NumExpr 6])),
        \<lparr>input = [], last_char = CHR 0xFF, IdentStr = ''f'', NumVal = 6, CurTok = tok_eof\<rparr>)"
    by code_simp
  have l: "left_assoc (BinaryExpr CHR ''-''
               (BinaryExpr CHR ''+'' (BinaryExpr CHR ''*'' (NumExpr 4) (NumExpr 5)) (VarExpr ''x''))
               (CallExpr ''f'' [NumExpr 6]))"
    using parse_expr_left_associative h by blast
  have o: "is_operand ''1.5''" by code_simp
  have q: "is_op CHR ''-''" "is_operand ''x2''" "is_op CHR ''*''" "is_operand ''3''"
    "is_op CHR ''+''" "is_operand ''y''"
    by code_simp+
  then have p: "\<forall>(op, b) \<in> set ?ps. is_op op \<and> is_operand b" by simp
  have t: "chain_text ''1.5'' ?ps = ''1.5-x2*3+y''" by code_simp
  have e: "chain_expr ''1.5'' ?ps
       = BinaryExpr CHR ''+''
                (BinaryExpr CHR ''*'' (BinaryExpr CHR ''-'' (NumExpr (3 / 2)) (VarExpr ''x2''))
                   (NumExpr 3))
                (VarExpr ''y'')"
    by code_simp
  have "fst (parse_expr (get_next_token (init_state (chain_text ''1.5'' ?ps))))
          = Some (chain_expr ''1.5'' ?ps)"
    using parse_expr_left_associative [of "''1.5''" ?ps] o p by blast
  then have c: "fst (parse_expr (get_next_token (init_state ''1.5-x2*3+y'')))
       = Some (BinaryExpr CHR ''+''
                (BinaryExpr CHR ''*'' (BinaryExpr CHR ''-'' (NumExpr (3 / 2)) (VarExpr ''x2''))
                   (NumExpr 3))
                (VarExpr ''y''))"
    by (simp only: t e)
  from h l o q t c show ?thesis by (simp only:)
qed

text \<open>
  Claim C7. The operator loop extends the expression exactly when the current token
  is one of \<open>+\<close>, \<open>-\<close>, \<open>*\<close>: on any other token it returns the expression and the
  state as they are, and on one of the three it never does, and what it returns is a
  binary node with such an operator. \<open>/\<close> is not one of them, no tree that
  \<open>parse_expr\<close> returns holds a binary node with the operator \<open>/\<close>, and \<open>a/b\<close>
  parses to the variable \<open>a\<close> with \<open>/\<close> left as the current token.
\<close>

theorem parse_binop_rhs_extends_iff_op:
  "(is_op (char_of (CurTok (get_next_token s0)))
      = (CurTok (get_next_token s0) = of_char CHR ''+'' \<or> CurTok (get_next_token s0) = of_char CHR ''-''
         \<or> CurTok (get_next_token s0) = of_char CHR ''*''))
   \<and> (\<not> is_op (char_of (CurTok s)) \<longrightarrow> parse_binop_rhs cur s = (Some cur, s))
   \<and> (is_op (char_of (CurTok s)) \<longrightarrow> parse_binop_rhs cur s \<noteq> (Some cur, s)
        \<and> (\<forall>e s'. parse_binop_rhs cur s = (Some e, s') \<longrightarrow> (\<exists>op l r. e = BinaryExpr op l r \<and> is_op op)))
   \<and> \<not> is_op CHR ''/''
   \<and> (\<forall>e s'. parse_expr s = (Some e, s') \<longrightarrow> CHR ''/'' \<notin> binops e)
   \<and> parse_expr (get_next_token (init_state ''a/b''))
       = (Some (VarExpr ''a''),
          \<lparr>input = [], last_char = CHR ''b'', IdentStr = ''a'', NumVal = 0,
           CurTok = of_char CHR ''/''\<rparr>)"
proof (intro conjI impI allI)
  show "is_op (char_of (CurTok (get_next_token s0)))
      = (CurTok (get_next_token s0) = of_char CHR ''+'' \<or> CurTok (get_next_token s0) = of_char CHR ''-''
         \<or> CurTok (get_next_token s0) = of_char CHR ''*'')"
    using gettok_range [of s0] by (intro is_op_char_of) (simp_all add: CurTok_get_next_token)
next
  assume "\<not> is_op (char_of (CurTok s))"
  then show "parse_binop_rhs cur s = (Some cur, s)"
    by (simp add: parse_binop_rhs.simps [of cur s])
next
  assume "is_op (char_of (CurTok s))"
  then have "remaining (snd (parse_binop_rhs cur s)) < remaining s"
    by (rule remaining_parse_binop_rhs_less)
  then show "parse_binop_rhs cur s \<noteq> (Some cur, s)" by auto
next
  fix e s'
  assume "is_op (char_of (CurTok s))" and "parse_binop_rhs cur s = (Some e, s')"
  then show "\<exists>op l r. e = BinaryExpr op l r \<and> is_op op"
    using parse_binop_rhs_result [of cur s e s'] by simp
next
  show "\<not> is_op CHR ''/''" by (simp add: is_op_def)
next
  fix e s'
  assume "parse_expr s = (Some e, s')"
  then have "ops_ok e" by (rule binops_parse(5))
  then show "CHR ''/'' \<notin> binops e" by (auto simp: ops_ok_def is_op_def)
next
  show "parse_expr (get_next_token (init_state ''a/b''))
       = (Some (VarExpr ''a''),
          \<lparr>input = [], last_char = CHR ''b'', IdentStr = ''a'', NumVal = 0,
           CurTok = of_char CHR ''/''\<rparr>)"
    by code_simp
qed

theorem parse_binop_rhs_extends_iff_op_witness:
  "\<not> is_op (char_of (CurTok (snd (parse_primary (get_next_token (init_state ''a/b''))))))
   \<and> parse_binop_rhs (VarExpr ''a'') (snd (parse_primary (get_next_token (init_state ''a/b''))))
       = (Some (VarExpr ''a''), snd (parse_primary (get_next_token (init_state ''a/b''))))
   \<and> is_op (char_of (CurTok (snd (parse_primary (get_next_token (init_state ''a+b''))))))
   \<and> parse_binop_rhs (VarExpr ''a'') (snd (parse_primary (get_next_token (init_state ''a+b''))))
       = (Some (BinaryExpr CHR ''+'' (VarExpr ''a'') (VarExpr ''b'')),
          \<lparr>input = [], last_char = CHR 0xFF, IdentStr = ''b'', NumVal = 0, CurTok = tok_eof\<rparr>)
   \<and> parse_binop_rhs (VarExpr ''a'') (snd (parse_primary (get_next_token (init_state ''a+b''))))
       \<noteq> (Some (VarExpr ''a''), snd (parse_primary (get_next_token (init_state ''a+b''))))
   \<and> parse_expr (get_next_token (init_state ''a-b*c''))
       = (Some (BinaryExpr CHR ''*'' (BinaryExpr CHR ''-'' (VarExpr ''a'') (VarExpr ''b''))
                 (VarExpr ''c'')),
          \<lparr>input = [], last_char = CHR 0xFF, IdentStr = ''c'', NumVal = 0, CurTok = tok_eof\<rparr>)
   \<and> CHR ''/'' \<notin> binops (BinaryExpr CHR ''*'' (BinaryExpr CHR ''-'' (VarExpr ''a'') (VarExpr ''b''))
                 (VarExpr ''c''))"
proof -
  let ?s = "snd (parse_primary (get_next_token (init_state ''a/b'')))"
  let ?t = "snd (parse_primary (get_next_token (init_state ''a+b'')))"
  let ?e = "BinaryExpr CHR ''*'' (BinaryExpr CHR ''-'' (VarExpr ''a'') (VarExpr ''b'')) (VarExpr ''c'')"
  have h1: "\<not> is_op (char_of (CurTok ?s))" by code_simp
  have h2: "is_op (char_of (CurTok ?t))" by code_simp
  have h3: "parse_binop_rhs (VarExpr ''a'') ?t
       = (Some (BinaryExpr CHR ''+'' (VarExpr ''a'') (VarExpr ''b'')),
          \<lparr>input = [], last_char = CHR 0xFF, IdentStr = ''b'', NumVal = 0, CurTok = tok_eof\<rparr>)"
    by code_simp
  have h4: "parse_expr (get_next_token (init_state ''a-b*c''))
       = (Some ?e,
          \<lparr>input = [], last_char = CHR 0xFF, IdentStr = ''c'', NumVal = 0, CurTok = tok_eof\<rparr>)"
    by code_simp
  have a: "parse_binop_rhs (VarExpr ''a'') ?s = (Some (VarExpr ''a''), ?s)"
    using parse_binop_rhs_extends_iff_op [of _ ?s "VarExpr ''a''"] h1 by blast
  have b: "parse_binop_rhs (VarExpr ''a'') ?t \<noteq> (Some (VarExpr ''a''), ?t)"
    using parse_binop_rhs_extends_iff_op [of _ ?t "VarExpr ''a''"] h2 by blast
  have c: "CHR ''/'' \<notin> binops ?e"
    using parse_binop_rhs_extends_iff_op [of _ "get_next_token (init_state ''a-b*c'')"] h4 by blast
  from h1 h2 h3 h4 a b c show ?thesis by blast
qed

subsection \<open>Call expressions\<close>

text \<open>
  Claim C5. The input \<open>foo(1, 2)\<close> parses to the call of \<open>foo\<close> with the arguments
  \<open>1\<close> and \<open>2\<close> in this order, and the input \<open>foo()\<close> parses to the call of
  \<open>foo\<close> with no argument. The driver reads the first token before it calls the
  parser, so an input is parsed from \<open>get_next_token (init_state input)\<close>; the result is
  the same from \<open>parse_expr\<close> and from \<open>parse_ident\<close>.
\<close>

theorem parse_call_examples:
  "fst (parse_expr (get_next_token (init_state ''foo(1, 2)'')))
     = Some (CallExpr ''foo'' [NumExpr 1, NumExpr 2])
   \<and> fst (parse_ident (get_next_token (init_state ''foo(1, 2)'')))
     = Some (CallExpr ''foo'' [NumExpr 1, NumExpr 2])
   \<and> fst (parse_expr (get_next_token (init_state ''foo()''))) = Some (CallExpr ''foo'' [])
   \<and> fst (parse_ident (get_next_token (init_state ''foo()''))) = Some (CallExpr ''foo'' [])"
  by code_simp

text \<open>
  Claim C4 says that a successful call parse has consumed the closing parenthesis, also
  for an empty argument list. The code reads past the parenthesis only inside the branch
  for a non-empty list: after \<open>foo()\<close> the current token is still the parenthesis,
  while after \<open>foo(1)\<close> it is the end of the input.
\<close>

theorem parse_ident_empty_call_keeps_paren:
  "parse_ident (get_next_token (init_state ''foo()''))
     = (Some (CallExpr ''foo'' []),
        \<lparr>input = [], last_char = CHR 0xFF, IdentStr = ''foo'', NumVal = 0,
         CurTok = of_char CHR '')''\<rparr>)
   \<and> CurTok (snd (parse_ident (get_next_token (init_state ''foo(1)'')))) = tok_eof"
  by code_simp

subsection \<open>Prototypes and definitions\<close>

text \<open>
  Claim C2 as stated: the input \<open>def foo(x y) x+y\<close>, with the parameters separated by
  a blank, parses to the definition of \<open>foo\<close>. It does not: after the parameter
  \<open>x\<close> the loop of \<open>parse_prototype\<close> accepts only a comma or the closing
  parenthesis, and the definition fails.
\<close>

theorem parse_definition_space_separated_fails:
  "fst (parse_definition (get_next_token (init_state ''def foo(x y) x+y''))) = None"
  by code_simp

text \<open>
  Claim C2 as amended: with the parameters separated by a comma, \<open>def foo(x, y) x+y\<close>
  parses to the definition of \<open>foo\<close> with the parameters \<open>x\<close> and \<open>y\<close>, each kept
  as a variable node, and the body \<open>x + y\<close>. After every parameter the prototype accepts
  only the closing parenthesis, which ends the list, or a comma, after which the next
  parameter is read; on any other token the loop fails, and with it the prototype and
  the definition.
\<close>

theorem parse_definition_comma_separated:
  "fst (parse_definition (get_next_token (init_state ''def foo(x, y) x+y'')))
     = Some (FunctionExpr (FuncPrototype ''foo'' [VarExpr ''x'', VarExpr ''y''])
               (BinaryExpr CHR ''+'' (VarExpr ''x'') (VarExpr ''y'')))
   \<and> (\<forall>argnames s a s1. parse_ident s = (Some a, s1) \<longrightarrow>
         (CurTok s1 = of_char CHR '')'' \<longrightarrow>
            parse_prototype_loop argnames s = (Some (argnames @ [a]), s1))
       \<and> (CurTok s1 = of_char CHR '','' \<longrightarrow>
            parse_prototype_loop argnames s
              = parse_prototype_loop (argnames @ [a]) (get_next_token s1))
       \<and> (CurTok s1 \<noteq> of_char CHR '')'' \<and> CurTok s1 \<noteq> of_char CHR '','' \<longrightarrow>
            parse_prototype_loop argnames s = (None, s1)))
   \<and> (\<forall>s0 a s1.
         CurTok (get_next_token s0) = tok_ident
         \<and> CurTok (get_next_token (get_next_token s0)) = of_char CHR ''(''
         \<and> CurTok (get_next_token (get_next_token (get_next_token s0))) \<noteq> of_char CHR '')''
         \<and> parse_ident (get_next_token (get_next_token (get_next_token s0))) = (Some a, s1)
         \<and> CurTok s1 \<noteq> of_char CHR '')'' \<and> CurTok s1 \<noteq> of_char CHR '',''
         \<longrightarrow> fst (parse_prototype (get_next_token s0)) = None
             \<and> fst (parse_definition s0) = None)"
proof (intro conjI allI impI)
  show "fst (parse_definition (get_next_token (init_state ''def foo(x, y) x+y'')))
     = Some (FunctionExpr (FuncPrototype ''foo'' [VarExpr ''x'', VarExpr ''y''])
               (BinaryExpr CHR ''+'' (VarExpr ''x'') (VarExpr ''y'')))"
    by code_simp
next
  fix argnames s a s1
  assume "parse_ident s = (Some a, s1)" and "CurTok s1 = of_char CHR '')''"
  then show "parse_prototype_loop argnames s = (Some (argnames @ [a]), s1)"
    using parse_prototype_loop_step by blast
next
  fix argnames s a s1
  assume "parse_ident s = (Some a, s1)" and "CurTok s1 = of_char CHR '',''"
  then show "parse_prototype_loop argnames s
              = parse_prototype_loop (argnames @ [a]) (get_next_token s1)"
    using parse_prototype_loop_step by blast
next
  fix argnames s a s1
  assume "parse_ident s = (Some a, s1)"
    and "CurTok s1 \<noteq> of_char CHR '')'' \<and> CurTok s1 \<noteq> of_char CHR '',''"
  then show "parse_prototype_loop argnames s = (None, s1)"
    using parse_prototype_loop_step by blast
next
  fix s0 a s1
  assume h: "CurTok (get_next_token s0) = tok_ident
         \<and> CurTok (get_next_token (get_next_token s0)) = of_char CHR ''(''
         \<and> CurTok (get_next_token (get_next_token (get_next_token s0))) \<noteq> of_char CHR '')''
         \<and> parse_ident (get_next_token (get_next_token (get_next_token s0))) = (Some a, s1)
         \<and> CurTok s1 \<noteq> of_char CHR '')'' \<and> CurTok s1 \<noteq> of_char CHR '',''"
  then have "parse_prototype_loop [] (get_next_token (get_next_token (get_next_token s0))) = (None, s1)"
    using parse_prototype_loop_step by blast
  with h have p: "fst (parse_prototype (get_next_token s0)) = None"
    by (simp add: parse_prototype_def Let_def)
  then show "fst (parse_prototype (get_next_token s0)) = None" .
  from p show "fst (parse_definition s0) = None" by (rule fail_definition_proto)
qed

theorem parse_definition_comma_separated_witness:
  "CurTok (get_next_token (get_next_token (init_state ''def g(a;b) a''))) = tok_ident
   \<and> CurTok (get_next_token (get_next_token (get_next_token (init_state ''def g(a;b) a''))))
       = of_char CHR ''(''
   \<and> parse_ident (get_next_token (get_next_token (get_next_token (get_next_token
         (init_state ''def g(a;b) a'')))))
       = (Some (VarExpr ''a''),
          \<lparr>input = '') a'', last_char = CHR ''b'', IdentStr = ''a'', NumVal = 0,
           CurTok = of_char CHR '';''\<rparr>)
   \<and> parse_prototype_loop [] (get_next_token (get_next_token (get_next_token (get_next_token
         (init_state ''def g(a;b) a'')))))
       = (None,
          \<lparr>input = '') a'', last_char = CHR ''b'', IdentStr = ''a'', NumVal = 0,
           CurTok = of_char CHR '';''\<rparr>)
   \<and> fst (parse_prototype (get_next_token (get_next_token (init_state ''def g(a;b) a'')))) = None
   \<and> fst (parse_definition (get_next_token (init_state ''def g(a;b) a''))) = None"
proof -
  let ?s0 = "get_next_token (init_state ''def g(a;b) a'')"
  let ?s3 = "get_next_token (get_next_token (get_next_token ?s0))"
  let ?s1 = "\<lparr>input = '') a'', last_char = CHR ''b'', IdentStr = ''a'', NumVal = 0,
           CurTok = of_char CHR '';''\<rparr>"
  note t = parse_definition_comma_separated
  have h1: "CurTok (get_next_token ?s0) = tok_ident" by code_simp
  have h2: "CurTok (get_next_token (get_next_token ?s0)) = of_char CHR ''(''" by code_simp
  have h3: "CurTok ?s3 \<noteq> of_char CHR '')''" by code_simp
  have h4: "parse_ident ?s3 = (Some (VarExpr ''a''), ?s1)" by code_simp
  have h5: "CurTok ?s1 \<noteq> of_char CHR '')''" and h6: "CurTok ?s1 \<noteq> of_char CHR '',''" by code_simp+
  have c1: "parse_prototype_loop [] ?s3 = (None, ?s1)" using t h4 h5 h6 by blast
  have c2: "fst (parse_prototype (get_next_token ?s0)) = None
             \<and> fst (parse_definition ?s0) = None"
    using t h1 h2 h3 h4 h5 h6 by blast
  from h1 h2 h4 c1 c2 show ?thesis by (simp only:)
qed

text \<open>
  Claim C3 says that a parameter position holding anything but a bare identifier makes
  \<open>parse_prototype\<close> fail. The code reads each parameter with \<open>parse_ident\<close> and
  checks nothing more: for \<open>def foo(f(a)) 1\<close> it returns a prototype whose parameter
  is the call \<open>f(a)\<close>.
\<close>

theorem parse_prototype_accepts_call_parameter:
  "fst (parse_prototype (get_next_token (get_next_token (init_state ''def foo(f(a)) 1''))))
     = Some (FuncPrototype ''foo'' [CallExpr ''f'' [VarExpr ''a'']])"
  by code_simp

text \<open>
  Claim C10. When the token after the opening parenthesis of a prototype is the closing
  one, \<open>parse_prototype\<close> returns a prototype without parameters and leaves that
  parenthesis as the current token; the body of a definition is then parsed from the
  parenthesis and the definition fails, as it does for \<open>def foo() 1\<close>.
\<close>

theorem parse_prototype_empty_params_keeps_paren:
  assumes "CurTok (get_next_token s0) = tok_ident"
    and "CurTok (get_next_token (get_next_token s0)) = of_char CHR ''(''"
    and "CurTok (get_next_token (get_next_token (get_next_token s0))) = of_char CHR '')''"
  shows "parse_prototype (get_next_token s0)
           = (Some (FuncPrototype (IdentStr (get_next_token s0)) []),
              get_next_token (get_next_token (get_next_token s0)))
         \<and> CurTok (snd (parse_prototype (get_next_token s0))) = of_char CHR '')''
         \<and> fst (parse_definition s0) = None"
proof -
  let ?s = "get_next_token s0"
  let ?s2 = "get_next_token (get_next_token ?s)"
  have p: "parse_prototype ?s = (Some (FuncPrototype (IdentStr ?s) []), ?s2)"
    using assms by (simp add: parse_prototype_def Let_def)
  have "parse_expr ?s2 = (None, ?s2)"
    using assms(3) by (intro parse_expr_unknown_token) (simp_all add: tok_ident_def tok_num_def)
  then have "fst (parse_definition s0) = None"
    using p by (simp add: parse_definition_def)
  with p assms(3) show ?thesis by simp
qed

theorem parse_prototype_empty_params_keeps_paren_witness:
  "CurTok (get_next_token (get_next_token (init_state ''def foo() 1''))) = tok_ident
   \<and> CurTok (snd (parse_prototype (get_next_token (get_next_token (init_state ''def foo() 1'')))))
       = of_char CHR '')''
   \<and> fst (parse_prototype (get_next_token (get_next_token (init_state ''def foo() 1''))))
       = Some (FuncPrototype ''foo'' [])
   \<and> fst (parse_definition (get_next_token (init_state ''def foo() 1''))) = None"
proof -
  let ?s0 = "get_next_token (init_state ''def foo() 1'')"
  have h1: "CurTok (get_next_token ?s0) = tok_ident" by code_simp
  have h2: "CurTok (get_next_token (get_next_token ?s0)) = of_char CHR ''(''" by code_simp
  have h3: "CurTok (get_next_token (get_next_token (get_next_token ?s0))) = of_char CHR '')''"
    by code_simp
  have n: "IdentStr (get_next_token ?s0) = ''foo''" by code_simp
  note t = parse_prototype_empty_params_keeps_paren [OF h1 h2 h3]
  from t have "fst (parse_prototype (get_next_token ?s0)) = Some (FuncPrototype ''foo'' [])"
    by (simp add: n)
  with t h1 show ?thesis by blast
qed

subsection \<open>Failure\<close>

text \<open>
  Claim C6. For the input \<open>def foo(\<close> the definition fails: \<open>parse_definition\<close>
  returns \<open>None\<close>, which holds no node. Every parsing function is total and returns an
  \<open>option\<close>, and a failure of a function it calls is its own failure: of the prototype
  or the body for a definition, of the prototype for an \<open>extern\<close>, of the expression
  for a top-level expression, of a primary or of the operator loop for an expression, of
  the right operand for the operator loop, of \<open>parse_ident\<close> or an unknown token for a
  primary, of an argument for a call, of a parameter for a prototype.
\<close>

theorem parse_failure_is_propagated:
  "fst (parse_definition (get_next_token (init_state ''def foo(''))) = None
   \<and> (\<forall>s. fst (parse_prototype (get_next_token s)) = None \<longrightarrow> fst (parse_definition s) = None)
   \<and> (\<forall>s. fst (parse_expr (snd (parse_prototype (get_next_token s)))) = None
          \<longrightarrow> fst (parse_definition s) = None)
   \<and> (\<forall>s. fst (parse_prototype (get_next_token s)) = None \<longrightarrow> fst (parse_extern s) = None)
   \<and> (\<forall>s. fst (parse_expr s) = None \<longrightarrow> fst (parse_toplevel_expr s) = None)
   \<and> (\<forall>s. fst (parse_primary s) = None \<longrightarrow> fst (parse_expr s) = None)
   \<and> (\<forall>s. fst (parse_binop_rhs (the (fst (parse_primary s))) (snd (parse_primary s))) = None
          \<longrightarrow> fst (parse_expr s) = None)
   \<and> (\<forall>cur s. is_op (char_of (CurTok s)) \<longrightarrow> fst (parse_primary (get_next_token s)) = None
          \<longrightarrow> fst (parse_binop_rhs cur s) = None)
   \<and> (\<forall>s. CurTok s = tok_ident \<longrightarrow> fst (parse_ident s) = None \<longrightarrow> fst (parse_primary s) = None)
   \<and> (\<forall>s. CurTok s \<noteq> tok_ident \<longrightarrow> CurTok s \<noteq> tok_num \<longrightarrow> fst (parse_primary s) = None)
   \<and> (\<forall>args s. fst (parse_expr s) = None \<longrightarrow> fst (parse_ident_loop args s) = None)
   \<and> (\<forall>s. CurTok (get_next_token s) = of_char CHR ''(''
          \<longrightarrow> CurTok (get_next_token (get_next_token s)) \<noteq> of_char CHR '')''
          \<longrightarrow> fst (parse_ident_loop [] (get_next_token (get_next_token s))) = None
          \<longrightarrow> fst (parse_ident s) = None)
   \<and> (\<forall>argnames s. fst (parse_ident s) = None \<longrightarrow> fst (parse_prototype_loop argnames s) = None)
   \<and> (\<forall>s. CurTok s = tok_ident \<longrightarrow> CurTok (get_next_token s) = of_char CHR ''(''
          \<longrightarrow> CurTok (get_next_token (get_next_token s)) \<noteq> of_char CHR '')''
          \<longrightarrow> fst (parse_prototype_loop [] (get_next_token (get_next_token s))) = None
          \<longrightarrow> fst (parse_prototype s) = None)"
proof (intro conjI allI impI)
  show "fst (parse_definition (get_next_token (init_state ''def foo(''))) = None"
    by code_simp
qed (simp_all add: fail_definition_proto fail_definition_body fail_toplevel fail_expr_primary
      fail_expr_binop fail_binop_primary fail_primary_ident fail_ident_loop fail_ident
      fail_prototype_loop fail_prototype parse_primary_unknown_token parse_extern_def)

theorem parse_failure_is_propagated_witness:
  "fst (parse_prototype (get_next_token (get_next_token (init_state ''def foo('')))) = None
   \<and> fst (parse_definition (get_next_token (init_state ''def foo(''))) = None
   \<and> fst (parse_expr (snd (parse_prototype (get_next_token (get_next_token (init_state ''def f(x) )'')))))) = None
   \<and> fst (parse_definition (get_next_token (init_state ''def f(x) )''))) = None
   \<and> fst (parse_prototype (get_next_token (get_next_token (init_state ''extern 1'')))) = None
   \<and> fst (parse_extern (get_next_token (init_state ''extern 1''))) = None
   \<and> fst (parse_primary (get_next_token (init_state '')''))) = None
   \<and> fst (parse_expr (get_next_token (init_state '')''))) = None
   \<and> fst (parse_toplevel_expr (get_next_token (init_state '')''))) = None
   \<and> fst (parse_ident_loop [] (get_next_token (init_state '')''))) = None
   \<and> is_op (char_of (CurTok (snd (parse_primary (get_next_token (init_state ''1+)''))))))
   \<and> fst (parse_primary (get_next_token (snd (parse_primary (get_next_token (init_state ''1+)'')))))) = None
   \<and> fst (parse_binop_rhs (NumExpr 1) (snd (parse_primary (get_next_token (init_state ''1+)''))))) = None
   \<and> fst (parse_expr (get_next_token (init_state ''1+)''))) = None
   \<and> CurTok (get_next_token (init_state ''f(+)'')) = tok_ident
   \<and> fst (parse_ident (get_next_token (init_state ''f(+)''))) = None
   \<and> fst (parse_primary (get_next_token (init_state ''f(+)''))) = None
   \<and> fst (parse_prototype_loop [] (get_next_token (init_state ''f(+)''))) = None
   \<and> fst (parse_prototype (get_next_token (get_next_token (init_state ''def g(f(+))'')))) = None"
proof -
  note t = parse_failure_is_propagated
  let ?d = "get_next_token (init_state ''def foo('')"
  let ?b = "get_next_token (init_state ''def f(x) )'')"
  let ?x = "get_next_token (init_state ''extern 1'')"
  let ?p = "get_next_token (init_state '')'')"
  let ?o = "get_next_token (init_state ''1+)'')"
  let ?o1 = "snd (parse_primary ?o)"
  let ?f = "get_next_token (init_state ''f(+)'')"
  let ?g = "get_next_token (get_next_token (init_state ''def g(f(+))''))"
  have d: "fst (parse_prototype (get_next_token ?d)) = None" by code_simp
  have b: "fst (parse_expr (snd (parse_prototype (get_next_token ?b)))) = None" by code_simp
  have x: "fst (parse_prototype (get_next_token ?x)) = None" by code_simp
  have p1: "CurTok ?p \<noteq> tok_ident" and p2: "CurTok ?p \<noteq> tok_num" by code_simp+
  have o1: "is_op (char_of (CurTok ?o1))" by code_simp
  have o2: "fst (parse_primary (get_next_token ?o1)) = None" by code_simp
  have o3: "the (fst (parse_primary ?o)) = NumExpr 1" by code_simp
  have f1: "CurTok ?f = tok_ident" by code_simp
  have f2: "CurTok (get_next_token ?f) = of_char CHR ''(''" by code_simp
  have f3: "CurTok (get_next_token (get_next_token ?f)) \<noteq> of_char CHR '')''" by code_simp
  have f4: "fst (parse_expr (get_next_token (get_next_token ?f))) = None" by code_simp
  have g1: "CurTok ?g = tok_ident" by code_simp
  have g2: "CurTok (get_next_token ?g) = of_char CHR ''(''" by code_simp
  have g3: "CurTok (get_next_token (get_next_token ?g)) \<noteq> of_char CHR '')''" by code_simp
  have g4: "fst (parse_ident (get_next_token (get_next_token ?g))) = None" by code_simp
  have c1: "fst (parse_definition ?d) = None" using t d by blast
  have c2: "fst (parse_definition ?b) = None" using t b by blast
  have c3: "fst (parse_extern ?x) = None" using t x by blast
  have c4: "fst (parse_primary ?p) = None" using t p1 p2 by blast
  have c5: "fst (parse_expr ?p) = None" using t c4 by blast
  have c6: "fst (parse_toplevel_expr ?p) = None" using t c5 by blast
  have c7: "fst (parse_ident_loop [] ?p) = None" using t c5 by blast
  have c8: "fst (parse_binop_rhs (NumExpr 1) ?o1) = None" using t o1 o2 by blast
  have c9: "fst (parse_expr ?o) = None" using t c8 o3 by metis
  have c10: "fst (parse_ident_loop [] (get_next_token (get_next_token ?f))) = None"
    using t f4 by blast
  have c11: "fst (parse_ident ?f) = None" using t f2 f3 c10 by blast
  have c12: "fst (parse_primary ?f) = None" using t f1 c11 by blast
  have c13: "fst (parse_prototype_loop [] ?f) = None" using t c11 by blast
  have c14: "fst (parse_prototype_loop [] (get_next_token (get_next_token ?g))) = None"
    using t g4 by blast
  have c15: "fst (parse_prototype ?g) = None" using t g1 g2 g3 c14 by blast
  from d b x c1 c2 c3 c4 c5 c6 c7 o1 o2 c8 c9 f1 c11 c12 c13 c15 show ?thesis by blast
qed

subsection \<open>Number tokens and determinism\<close>

text \<open>
  Claim C8. When the current character is a digit or a decimal point, \<open>gettok\<close>
  returns one number token: it takes the maximal run of digits and points that starts
  there, however many points it holds, converts it with \<open>strtod\<close>, and stops before the
  first character that is neither. The input \<open>1.2.3\<close> gives exactly one token, a
  number, whose value is what \<open>strtod\<close> makes of the whole text \<open>1.2.3\<close>.
\<close>

theorem gettok_number_run:
  "(isdigit (int_of_char (last_char s)) \<or> last_char s = CHR ''.'' \<longrightarrow>
      gettok s =
        (tok_num,
         s\<lparr>input := tl (dropWhile num_char (input s)),
           last_char := (case dropWhile num_char (input s) of [] \<Rightarrow> CHR 0xFF | c # cs \<Rightarrow> c),
           NumVal := strtod (last_char s # takeWhile num_char (input s))\<rparr>))
   \<and> tokens (init_state ''1.2.3'') = [(tok_num, [], strtod ''1.2.3'')]"
proof (intro conjI impI)
  assume "isdigit (int_of_char (last_char s)) \<or> last_char s = CHR ''.''"
  then show "gettok s =
        (tok_num,
         s\<lparr>input := tl (dropWhile num_char (input s)),
           last_char := (case dropWhile num_char (input s) of [] \<Rightarrow> CHR 0xFF | c # cs \<Rightarrow> c),
           NumVal := strtod (last_char s # takeWhile num_char (input s))\<rparr>)"
    by (rule gettok_number)
next
  let ?s0 = "init_state ''1.2.3''"
  let ?s1 = "\<lparr>input = [], last_char = CHR 0xFF, IdentStr = [], NumVal = strtod ''1.2.3'', CurTok = 0\<rparr>"
  have sk: "skip_space ?s0 = \<lparr>input = ''.2.3'', last_char = CHR ''1'', IdentStr = [], NumVal = 0, CurTok = 0\<rparr>"
    by code_simp
  have a: "\<not> isalpha (int_of_char CHR ''1'')" and n: "num_char CHR ''1''" by code_simp+
  have g1: "gettok ?s0 = (tok_num, ?s1)"
    using gettok_num [of ?s0] a n by (simp add: sk num_char_examples at_rest_def)
  have "\<not> isspace (int_of_char (last_char ?s1))" by (simp add: isspace_def int_of_char_def)
  then have sk1: "skip_space ?s1 = ?s1" by (rule skip_space_id)
  have "int_of_char (last_char (skip_space ?s1)) = EOF"
    unfolding sk1 by (simp add: int_of_char_def EOF_def)
  then have g2: "gettok ?s1 = (tok_eof, ?s1)" using gettok_eof [of ?s1] sk1 by simp
  show "tokens ?s0 = [(tok_num, [], strtod ''1.2.3'')]"
    by (simp add: tokens.simps [of ?s0] tokens.simps [of ?s1] g1 g2 tok_num_def tok_eof_def)
qed

theorem gettok_number_run_witness:
  "(isdigit (int_of_char (last_char
        \<lparr>input = ''.2.3+4'', last_char = CHR ''1'', IdentStr = [], NumVal = 0, CurTok = 0\<rparr>))
    \<or> last_char \<lparr>input = ''.2.3+4'', last_char = CHR ''1'', IdentStr = [], NumVal = 0, CurTok = 0\<rparr>
        = CHR ''.'')
   \<and> gettok \<lparr>input = ''.2.3+4'', last_char = CHR ''1'', IdentStr = [], NumVal = 0, CurTok = 0\<rparr>
       = (tok_num,
          \<lparr>input = ''4'', last_char = CHR ''+'', IdentStr = [], NumVal = strtod ''1.2.3'',
           CurTok = 0\<rparr>)"
proof -
  let ?s = "\<lparr>input = ''.2.3+4'', last_char = CHR ''1'', IdentStr = [], NumVal = 0, CurTok = 0\<rparr>"
  have h: "isdigit (int_of_char (last_char ?s)) \<or> last_char ?s = CHR ''.''" by code_simp
  have e: "?s\<lparr>input := tl (dropWhile num_char (input ?s)),
           last_char := (case dropWhile num_char (input ?s) of [] \<Rightarrow> CHR 0xFF | c # cs \<Rightarrow> c),
           NumVal := strtod (last_char ?s # takeWhile num_char (input ?s))\<rparr>
        = \<lparr>input = ''4'', last_char = CHR ''+'', IdentStr = [], NumVal = strtod ''1.2.3'', CurTok = 0\<rparr>"
    by (simp add: num_char_examples)
  from gettok_number_run [of ?s] h
  have "gettok ?s =
        (tok_num,
         ?s\<lparr>input := tl (dropWhile num_char (input ?s)),
           last_char := (case dropWhile num_char (input ?s) of [] \<Rightarrow> CHR 0xFF | c # cs \<Rightarrow> c),
           NumVal := strtod (last_char ?s # takeWhile num_char (input ?s))\<rparr>)"
    by blast
  with e h show ?thesis by (simp only:)
qed

text \<open>
  Claim C9 says that the token sequence, kinds and payloads, is a function of the
  remaining characters and the look-ahead alone. The kinds are (lemma
  \<open>tokens_same_lexer_input\<close>), and so are the payloads of a plain input (lemma
  \<open>tokens_lexeme\<close>). But \<open>last_char\<close> and \<open>this_char\<close> are of type \<open>char\<close>, so
  the byte \<open>0xFC\<close> is returned as \<open>-4\<close>, the code of \<open>tok_ident\<close>, with
  \<open>IdentStr\<close> as an earlier token left it: after \<open>ab\<close> and a blank, and after
  \<open>cd\<close> and a blank, the lexer stands before the same input with the same look-ahead,
  and the next token is the identifier \<open>ab\<close> in one run and \<open>cd\<close> in the other.
\<close>

theorem gettok_stale_payload:
  "gettok (init_state (''ab '' @ [CHR 0xFC]))
     = (tok_ident,
        \<lparr>input = [CHR 0xFC], last_char = CHR '' '', IdentStr = ''ab'', NumVal = 0, CurTok = 0\<rparr>)
   \<and> gettok (init_state (''cd '' @ [CHR 0xFC]))
     = (tok_ident,
        \<lparr>input = [CHR 0xFC], last_char = CHR '' '', IdentStr = ''cd'', NumVal = 0, CurTok = 0\<rparr>)
   \<and> same_lexer_input
        \<lparr>input = [CHR 0xFC], last_char = CHR '' '', IdentStr = ''ab'', NumVal = 0, CurTok = 0\<rparr>
        \<lparr>input = [CHR 0xFC], last_char = CHR '' '', IdentStr = ''cd'', NumVal = 0, CurTok = 0\<rparr>
   \<and> gettok \<lparr>input = [CHR 0xFC], last_char = CHR '' '', IdentStr = ''ab'', NumVal = 0, CurTok = 0\<rparr>
     = (tok_ident,
        \<lparr>input = [], last_char = CHR 0xFF, IdentStr = ''ab'', NumVal = 0, CurTok = 0\<rparr>)
   \<and> gettok \<lparr>input = [CHR 0xFC], last_char = CHR '' '', IdentStr = ''cd'', NumVal = 0, CurTok = 0\<rparr>
     = (tok_ident,
        \<lparr>input = [], last_char = CHR 0xFF, IdentStr = ''cd'', NumVal = 0, CurTok = 0\<rparr>)
   \<and> map lexeme (tokens
        \<lparr>input = [CHR 0xFC], last_char = CHR '' '', IdentStr = ''ab'', NumVal = 0, CurTok = 0\<rparr>)
     = [(tok_ident, Some ''ab'', None)]
   \<and> map lexeme (tokens
        \<lparr>input = [CHR 0xFC], last_char = CHR '' '', IdentStr = ''cd'', NumVal = 0, CurTok = 0\<rparr>)
     = [(tok_ident, Some ''cd'', None)]
   \<and> tokens (init_state (''ab '' @ [CHR 0xFC])) = [(tok_ident, ''ab'', 0), (tok_ident, ''ab'', 0)]
   \<and> fst (parse_expr (get_next_token (get_next_token (init_state (''ab '' @ [CHR 0xFC])))))
     = Some (VarExpr ''ab'')"
  by code_simp

end
